theory Spec2Isabelle
  imports Main "HOL-Library.Word"
begin

unbundle bit_operations_syntax

section \<open>Constants of TSCSyncer.cpp\<close>

text \<open>
  \<^verbatim>\<open>getBit<T>(n)\<close> is the value with only bit \<open>n\<close> set. The model-specific
  register addresses select which register an access touches; the model keeps one field
  per register instead.
\<close>

definition getBit :: "nat \<Rightarrow> 'a::len word" where
  "getBit n = push_bit n 1"

definition MSR_HWCR_LOCK_TSC_TO_CURR_P0 :: "64 word" where
  "MSR_HWCR_LOCK_TSC_TO_CURR_P0 = getBit 21"

definition CPUID_LEAF7_TSC_ADJUST :: "32 word" where
  "CPUID_LEAF7_TSC_ADJUST = getBit 1"

definition CPUID_FEATURE_HTT :: "64 word" where
  "CPUID_FEATURE_HTT = getBit 28"

definition PERIODIC_SYNC_INTERVAL :: "32 word" where
  "PERIODIC_SYNC_INTERVAL = 5000"

definition kIOPMTracePointSleepCPUs :: "8 word" where
  "kIOPMTracePointSleepCPUs = 0x18"

definition kIOPMTracePointWakePlatformActions :: "8 word" where
  "kIOPMTracePointWakePlatformActions = 0x22"

section \<open>State\<close>

text \<open>
  One processor core: where it stands in \<^verbatim>\<open>TSCForger::sync\<close> (the line it executes
  next), its cycle counter (\<^verbatim>\<open>MSR_TSC\<close>, read by \<^verbatim>\<open>rdtsc64\<close>) and its hardware
  configuration register (\<^verbatim>\<open>MSR_HWCR\<close>). The counter's own ticking is real time and is
  left out: \<^verbatim>\<open>rdtsc64\<close> returns the field.
\<close>

datatype sync_pc = AtLockFreq | AtFetchMax | AtFetchAdd | AtSpin | AtWrite | Finished

record core =
  cpc :: sync_pc
  tsc :: "64 word"
  hwcr :: "64 word"

text \<open>The \<^verbatim>\<open>IOTimerEventSource\<close>: enabled or not, and the pending timeout in ms.\<close>

record timer_src =
  enabled :: bool
  timeout :: "32 word option"

text \<open>
  Calls of the original (intercepted) kernel routines, with the arguments they receive.
  Pointers are addresses.
\<close>

datatype org_call =
    XcpmUrgency "32 word" "64 word" "64 word"
  | TracePoint "64 word" "8 word"
  | ClockGetCalendarMicrotime "64 word" "64 word"

text \<open>
  The singleton \<^verbatim>\<open>TSCForger\<close> together with the machine it runs on. The class is
  declared in TSCSyncer.hpp, which is not among the sources; the field widths follow the
  uses in TSCSyncer.cpp (\<^verbatim>\<open>targetTSC\<close> receives \<^verbatim>\<open>rdtsc64()\<close>, \<^verbatim>\<open>threadCount\<close>
  receives 32-bit register values) and the initial values are left to the caller.
\<close>

record world =
  systemAwake :: bool
  synchronised :: bool
  synchronising :: bool
  threadsEngaged :: "32 word"
  targetTSC :: "64 word"
  threadCount :: "32 word"
  amd17h :: bool
  tscAdjust :: bool
  timer :: "timer_src option"
  cores :: "core list"
  calls :: "org_call list"

section \<open>The round action, one atomic step at a time\<close>

definition lockFreq :: "world \<Rightarrow> core \<Rightarrow> core" where
  "lockFreq w c =
     (if amd17h w then c\<lparr>hwcr := hwcr c OR MSR_HWCR_LOCK_TSC_TO_CURR_P0\<rparr> else c)"

text \<open>
  \<open>sync_step i w\<close>: core \<open>i\<close> executes its next atomic action of \<^verbatim>\<open>TSCForger::sync\<close>.
  The spin loop re-reads \<^verbatim>\<open>threadsEngaged\<close> at every iteration; an iteration that finds
  it different from \<^verbatim>\<open>threadCount\<close> changes nothing. The load of \<^verbatim>\<open>targetTSC\<close>
  and the write of line 84 are one step: the register written is the core's own. A core
  outside the machine does nothing. The atomic operations take effect one at a time, in
  the order of the interleaving (the fetch-max, the fetch-add and the loads of the loop
  are sequentially consistent in the source, and the relaxed load of line 84 comes after
  the loop has seen every increment).
\<close>

definition sync_step :: "nat \<Rightarrow> world \<Rightarrow> world" where
  "sync_step i w =
     (if i < length (cores w) then
        (let c = cores w ! i in
         case cpc c of
           AtLockFreq \<Rightarrow> w\<lparr>cores := (cores w)[i := (lockFreq w c)\<lparr>cpc := AtFetchMax\<rparr>]\<rparr>
         | AtFetchMax \<Rightarrow>
             w\<lparr>targetTSC := max (targetTSC w) (tsc c),
               cores := (cores w)[i := c\<lparr>cpc := AtFetchAdd\<rparr>]\<rparr>
         | AtFetchAdd \<Rightarrow>
             w\<lparr>threadsEngaged := threadsEngaged w + 1,
               cores := (cores w)[i := c\<lparr>cpc := AtSpin\<rparr>]\<rparr>
         | AtSpin \<Rightarrow>
             (if threadsEngaged w \<noteq> threadCount w then w
              else w\<lparr>cores := (cores w)[i := c\<lparr>cpc := AtWrite\<rparr>]\<rparr>)
         | AtWrite \<Rightarrow> w\<lparr>cores := (cores w)[i := c\<lparr>tsc := targetTSC w, cpc := Finished\<rparr>]\<rparr>
         | Finished \<Rightarrow> w)
      else w)"

text \<open>A schedule names, step by step, the core that acts next.\<close>

fun run :: "nat list \<Rightarrow> world \<Rightarrow> world" where
  "run [] w = w"
| "run (i # sched) w = run sched (sync_step i w)"

definition all_done :: "world \<Rightarrow> bool" where
  "all_done w = list_all (\<lambda>c. cpc c = Finished) (cores w)"

text \<open>
  \<^verbatim>\<open>mp_rendezvous_no_intrs(sync, nullptr)\<close>: every core enters \<^verbatim>\<open>sync\<close>, and the call
  returns once all of them have left it. The schedule is the interleaving the hardware
  happens to produce; \<open>None\<close> means that the cores have not all left \<^verbatim>\<open>sync\<close> by the
  end of the schedule.
\<close>

definition enter_sync :: "world \<Rightarrow> world" where
  "enter_sync w = w\<lparr>cores := map (\<lambda>c. c\<lparr>cpc := AtLockFreq\<rparr>) (cores w)\<rparr>"

definition mp_rendezvous_no_intrs :: "nat list \<Rightarrow> world \<Rightarrow> world option" where
  "mp_rendezvous_no_intrs sched w =
     (let w' = run sched (enter_sync w) in if all_done w' then Some w' else None)"

section \<open>The orchestrator\<close>

datatype outcome = Skipped | Synced

definition atomic_exchange_synchronising :: "bool \<Rightarrow> world \<Rightarrow> bool \<times> world" where
  "atomic_exchange_synchronising v w = (synchronising w, w\<lparr>synchronising := v\<rparr>)"

text \<open>
  \<^verbatim>\<open>TSCForger::syncAll(timer)\<close> run by one caller without interference. \<open>Skipped\<close> is
  the \<^verbatim>\<open>return\<close> of line 92, \<open>Synced\<close> the end of the function.
\<close>

definition syncAll :: "bool \<Rightarrow> nat list \<Rightarrow> world \<Rightarrow> (outcome \<times> world) option" where
  "syncAll timer_arg sched w =
     (if \<not> systemAwake w then Some (Skipped, w)
      else if \<not> timer_arg \<and> synchronised w then Some (Skipped, w)
      else
        (let (held, w1) = atomic_exchange_synchronising True w in
         if held then Some (Skipped, w1)
         else
           (let w2 = w1\<lparr>synchronised := False\<rparr>;
                w3 = w2\<lparr>threadsEngaged := 0\<rparr>;
                w4 = w3\<lparr>targetTSC := 0\<rparr>
            in case mp_rendezvous_no_intrs sched w4 of
                 None \<Rightarrow> None
               | Some w5 \<Rightarrow>
                   (let w6 = w5\<lparr>synchronising := False\<rparr>;
                        w7 = w6\<lparr>synchronised := True\<rparr>
                    in Some (Synced, w7)))))"

section \<open>Timer, hooks and callbacks\<close>

definition startTimer :: "world \<Rightarrow> world" where
  "startTimer w =
     (case timer w of
        None \<Rightarrow> w
      | Some t \<Rightarrow> w\<lparr>timer := Some (t\<lparr>enabled := True, timeout := Some PERIODIC_SYNC_INTERVAL\<rparr>)\<rparr>)"

definition stopTimer :: "world \<Rightarrow> world" where
  "stopTimer w =
     (case timer w of
        None \<Rightarrow> w
      | Some t \<Rightarrow> w\<lparr>timer := Some (t\<lparr>timeout := None, enabled := False\<rparr>)\<rparr>)"


text \<open>
  Modelled from the spec: the default argument of \<^verbatim>\<open>syncAll\<close> is declared in
  TSCSyncer.hpp, which is not among the sources. The spec's trigger table has the wake
  and clock-read hooks call \<^verbatim>\<open>syncAll()\<close> as a non-periodic call.
\<close>

definition syncAll_default :: bool where
  "syncAll_default = False"

definition call_original :: "org_call \<Rightarrow> world \<Rightarrow> world" where
  "call_original c w = w\<lparr>calls := calls w @ [c]\<rparr>"

definition wrapXcpmUrgency :: "32 word \<Rightarrow> 64 word \<Rightarrow> 64 word \<Rightarrow> world \<Rightarrow> world" where
  "wrapXcpmUrgency urgency rtPeriod rtDeadline w =
     (if \<not> synchronised w then w
      else call_original (XcpmUrgency urgency rtPeriod rtDeadline) w)"

definition wrapTracePoint :: "64 word \<Rightarrow> 8 word \<Rightarrow> nat list \<Rightarrow> world \<Rightarrow> world option" where
  "wrapTracePoint that point sched w =
     (if point = kIOPMTracePointSleepCPUs then
        Some (call_original (TracePoint that point)
               (stopTimer (w\<lparr>systemAwake := False\<rparr>\<lparr>synchronised := False\<rparr>)))
      else if point = kIOPMTracePointWakePlatformActions then
        (case syncAll syncAll_default sched (w\<lparr>systemAwake := True\<rparr>) of
           None \<Rightarrow> None
         | Some (r, w') \<Rightarrow> Some (call_original (TracePoint that point) (startTimer w')))
      else Some (call_original (TracePoint that point) w))"

definition wrapClockGetCalendarMicrotime ::
    "64 word \<Rightarrow> 64 word \<Rightarrow> nat list \<Rightarrow> world \<Rightarrow> world option" where
  "wrapClockGetCalendarMicrotime secs microsecs sched w =
     (case syncAll syncAll_default sched w of
        None \<Rightarrow> None
      | Some (r, w') \<Rightarrow> Some (call_original (ClockGetCalendarMicrotime secs microsecs) w'))"


text \<open>
  The wrappers again, with the original routine as what it is in the source: a function
  pointer held by the singleton (\<^verbatim>\<open>orgXcpmUrgency\<close>, \<^verbatim>\<open>orgTracePoint\<close>,
  \<^verbatim>\<open>orgClockGetCalendarMicrotime\<close>). The original routine receives its arguments, sees
  the machine as it is at the moment of the call, and acts on the rest of the kernel,
  \<open>'k\<close>. The wrappers above are these with the routine that appends its arguments to
  \<open>calls\<close> (lemmas \<open>wrapXcpmUrgency_is_org\<close>, \<open>wrapTracePoint_is_org\<close> and
  \<open>wrapClockGetCalendarMicrotime_is_org\<close>).
\<close>

definition wrapXcpmUrgency_org ::
    "(32 word \<Rightarrow> 64 word \<Rightarrow> 64 word \<Rightarrow> world \<Rightarrow> 'k \<Rightarrow> 'k) \<Rightarrow>
     32 word \<Rightarrow> 64 word \<Rightarrow> 64 word \<Rightarrow> world \<Rightarrow> 'k \<Rightarrow> world \<times> 'k" where
  "wrapXcpmUrgency_org org urgency rtPeriod rtDeadline w k =
     (if \<not> synchronised w then (w, k)
      else (w, org urgency rtPeriod rtDeadline w k))"

definition wrapTracePoint_org ::
    "(64 word \<Rightarrow> 8 word \<Rightarrow> world \<Rightarrow> 'k \<Rightarrow> 'k) \<Rightarrow>
     64 word \<Rightarrow> 8 word \<Rightarrow> nat list \<Rightarrow> world \<Rightarrow> 'k \<Rightarrow> (world \<times> 'k) option" where
  "wrapTracePoint_org org that point sched w k =
     (if point = kIOPMTracePointSleepCPUs then
        (let w' = stopTimer (w\<lparr>systemAwake := False\<rparr>\<lparr>synchronised := False\<rparr>)
         in Some (w', org that point w' k))
      else if point = kIOPMTracePointWakePlatformActions then
        (case syncAll syncAll_default sched (w\<lparr>systemAwake := True\<rparr>) of
           None \<Rightarrow> None
         | Some (r, w') \<Rightarrow> Some (startTimer w', org that point (startTimer w') k))
      else Some (w, org that point w k))"

definition wrapClockGetCalendarMicrotime_org ::
    "(64 word \<Rightarrow> 64 word \<Rightarrow> world \<Rightarrow> 'k \<Rightarrow> 'k) \<Rightarrow>
     64 word \<Rightarrow> 64 word \<Rightarrow> nat list \<Rightarrow> world \<Rightarrow> 'k \<Rightarrow> (world \<times> 'k) option" where
  "wrapClockGetCalendarMicrotime_org org secs microsecs sched w k =
     (case syncAll syncAll_default sched w of
        None \<Rightarrow> None
      | Some (r, w') \<Rightarrow> Some (w', org secs microsecs w' k))"





section \<open>Initialization\<close>

text \<open>
  What \<^verbatim>\<open>init\<close> asks the hardware and the kernel: the device information, the CPUID
  leaves (\<open>None\<close> when \<^verbatim>\<open>CPUInfo::getCpuid\<close> returns false; the registers are
  eax, ebx, ecx, edx), the value of \<^verbatim>\<open>MSR_CORE_THREAD_COUNT\<close>, and whether the timer
  could be created. \<^verbatim>\<open>CPU_MODEL_PENRYN\<close> and the bit fields of \<^verbatim>\<open>CpuVersion\<close>
  (family: bits 8 to 11, extended family: bits 20 to 27) are those of the Lilu headers.
\<close>

text \<open>\<open>Unknown\<close> is every vendor that takes the \<^verbatim>\<open>default\<close> branch of the switch.\<close>

datatype CpuVendor = Unknown | AMD | Intel

record BaseDeviceInfo =
  cpuVendor :: CpuVendor
  cpuFamily :: "32 word"
  cpuModel :: "32 word"

type_synonym cpuid_regs = "32 word \<times> 32 word \<times> 32 word \<times> 32 word"

record probes =
  info :: BaseDeviceInfo
  getCpuid :: "32 word \<Rightarrow> cpuid_regs option"
  msr_core_thread_count :: "64 word"
  timer_created :: bool

definition CPU_MODEL_PENRYN :: "32 word" where
  "CPU_MODEL_PENRYN = 0x17"

definition version_family :: "32 word \<Rightarrow> 32 word" where
  "version_family raw = drop_bit 8 raw AND 0xF"

definition version_extendedFamily :: "32 word \<Rightarrow> 32 word" where
  "version_extendedFamily raw = drop_bit 20 raw AND 0xFF"

definition detect_amd :: "probes \<Rightarrow> world \<Rightarrow> world" where
  "detect_amd hw w =
     (let w1 = (case getCpuid hw 0x80000008 of
                  Some (eax, ebx, ecx, edx) \<Rightarrow> w\<lparr>threadCount := (ecx AND 0xFF) + 1\<rparr>
                | None \<Rightarrow> w)
      in case getCpuid hw 1 of
           Some (raw, ebx, ecx, edx) \<Rightarrow>
             (let family = version_family raw;
                  family' = (if family = 0xF then family + version_extendedFamily raw
                             else family)
              in w1\<lparr>amd17h := (0x17 \<le> family')\<rparr>)
         | None \<Rightarrow> w1)"

definition detect_intel :: "probes \<Rightarrow> world \<Rightarrow> world" where
  "detect_intel hw w =
     (let w1 = w\<lparr>tscAdjust :=
                   (case getCpuid hw 7 of
                      Some (eax, ebx, ecx, edx) \<Rightarrow> ebx AND CPUID_LEAF7_TSC_ADJUST \<noteq> 0
                    | None \<Rightarrow> False)\<rparr>
      in if 6 < cpuFamily (info hw) \<or>
            (cpuFamily (info hw) = 6 \<and> CPU_MODEL_PENRYN < cpuModel (info hw))
         then w1\<lparr>threadCount := ucast (msr_core_thread_count hw AND 0xFFFF)\<rparr>
         else w1)"

definition fallback_detection :: "probes \<Rightarrow> world \<Rightarrow> world" where
  "fallback_detection hw w =
     (if threadCount w = 0 then
        (case getCpuid hw 1 of
           Some (eax, ebx, ecx, edx) \<Rightarrow>
             (let features = push_bit 32 (ucast ecx :: 64 word) OR ucast edx
              in w\<lparr>threadCount :=
                     (if features AND CPUID_FEATURE_HTT \<noteq> 0 then drop_bit 16 ebx AND 0xFF
                      else 1)\<rparr>)
         | None \<Rightarrow> w\<lparr>threadCount := 1\<rparr>)
      else w)"

definition init :: "probes \<Rightarrow> world \<Rightarrow> world" where
  "init hw w =
     (let w1 = (case cpuVendor (info hw) of
                  AMD \<Rightarrow> detect_amd hw w
                | Intel \<Rightarrow> detect_intel hw w
                | Unknown \<Rightarrow> w);
          w2 = fallback_detection hw w1;
          w3 = w2\<lparr>timer := (if timer_created hw
                              then Some \<lparr>enabled = False, timeout = None\<rparr> else None)\<rparr>
      in startTimer w3)"

section \<open>Concurrent callers of the orchestrator\<close>

text \<open>
  Several threads inside \<^verbatim>\<open>syncAll\<close> at once. Every access to the shared fields is an
  atomic operation of its own, so a caller is a program counter (the source line it
  executes next) and one step executes that line. The rendezvous stops every core with
  interrupts off, so no other caller runs during it: it is one step of the caller, taken
  when the cores' schedule completes the round.
\<close>

datatype call_pc = L89 | L90 | L91 | L95 | L98 | L99 | L102 | L104 | L105 | Returned outcome

record caller =
  kpc :: call_pc
  is_timer :: bool

record sys =
  machine :: world
  callers :: "caller list"

definition set_pc :: "nat \<Rightarrow> call_pc \<Rightarrow> sys \<Rightarrow> sys" where
  "set_pc i p s = s\<lparr>callers := (callers s)[i := (callers s ! i)\<lparr>kpc := p\<rparr>]\<rparr>"

definition call_step :: "nat list \<Rightarrow> nat \<Rightarrow> sys \<Rightarrow> sys" where
  "call_step sched i s =
     (if i < length (callers s) then
        (case kpc (callers s ! i) of
           L89 \<Rightarrow>
             (if \<not> systemAwake (machine s) then set_pc i (Returned Skipped) s
              else set_pc i L90 s)
         | L90 \<Rightarrow>
             (if \<not> is_timer (callers s ! i) \<and> synchronised (machine s)
              then set_pc i (Returned Skipped) s
              else set_pc i L91 s)
         | L91 \<Rightarrow>
             (if fst (atomic_exchange_synchronising True (machine s))
              then set_pc i (Returned Skipped)
                     (s\<lparr>machine := snd (atomic_exchange_synchronising True (machine s))\<rparr>)
              else set_pc i L95
                     (s\<lparr>machine := snd (atomic_exchange_synchronising True (machine s))\<rparr>))
         | L95 \<Rightarrow> set_pc i L98 (s\<lparr>machine := (machine s)\<lparr>synchronised := False\<rparr>\<rparr>)
         | L98 \<Rightarrow> set_pc i L99 (s\<lparr>machine := (machine s)\<lparr>threadsEngaged := 0\<rparr>\<rparr>)
         | L99 \<Rightarrow> set_pc i L102 (s\<lparr>machine := (machine s)\<lparr>targetTSC := 0\<rparr>\<rparr>)
         | L102 \<Rightarrow>
             (case mp_rendezvous_no_intrs sched (machine s) of
                None \<Rightarrow> s
              | Some w' \<Rightarrow> set_pc i L104 (s\<lparr>machine := w'\<rparr>))
         | L104 \<Rightarrow> set_pc i L105 (s\<lparr>machine := (machine s)\<lparr>synchronising := False\<rparr>\<rparr>)
         | L105 \<Rightarrow>
             set_pc i (Returned Synced) (s\<lparr>machine := (machine s)\<lparr>synchronised := True\<rparr>\<rparr>)
         | Returned r \<Rightarrow> s)
      else s)"

text \<open>
  An interleaving: which caller steps next, and the cores' schedule for the case that
  the step is the rendezvous.
\<close>

fun call_run :: "(nat \<times> nat list) list \<Rightarrow> sys \<Rightarrow> sys" where
  "call_run [] s = s"
| "call_run ((i, sched) # es) s = call_run es (call_step sched i s)"



text \<open>A caller holds the gate from its successful exchange until it stores false.\<close>

definition holding :: "call_pc \<Rightarrow> bool" where
  "holding p = (p = L95 \<or> p = L98 \<or> p = L99 \<or> p = L102 \<or> p = L104)"

definition gate_inv :: "sys \<Rightarrow> bool" where
  "gate_inv s =
     ((\<forall>i < length (callers s). \<forall>j < length (callers s).
         holding (kpc (callers s ! i)) \<and> holding (kpc (callers s ! j)) \<longrightarrow> i = j) \<and>
      (synchronising (machine s) = (\<exists>i < length (callers s). holding (kpc (callers s ! i)))))"

section \<open>Predicates on a round\<close>

text \<open>
  A core has arrived once it has incremented \<^verbatim>\<open>threadsEngaged\<close>, has proposed once
  it has folded its counter into \<^verbatim>\<open>targetTSC\<close>, and has passed once it has left the
  spin loop.
\<close>

definition arrived :: "core \<Rightarrow> bool" where
  "arrived c = (cpc c = AtSpin \<or> cpc c = AtWrite \<or> cpc c = Finished)"

definition passed :: "core \<Rightarrow> bool" where
  "passed c = (cpc c = AtWrite \<or> cpc c = Finished)"

definition proposed :: "core \<Rightarrow> bool" where
  "proposed c = (cpc c = AtFetchAdd \<or> arrived c)"

definition count_arrived :: "world \<Rightarrow> nat" where
  "count_arrived w = length (filter arrived (cores w))"

definition next_pc :: "world \<Rightarrow> sync_pc \<Rightarrow> sync_pc" where
  "next_pc w p =
     (case p of
        AtLockFreq \<Rightarrow> AtFetchMax
      | AtFetchMax \<Rightarrow> AtFetchAdd
      | AtFetchAdd \<Rightarrow> AtSpin
      | AtSpin \<Rightarrow> (if threadsEngaged w \<noteq> threadCount w then AtSpin else AtWrite)
      | AtWrite \<Rightarrow> Finished
      | Finished \<Rightarrow> Finished)"

text \<open>
  The barrier's invariant: the counter is the number of cores that arrived; a core leaves
  the loop only once \<^verbatim>\<open>threadCount\<close> cores arrived; and when more than that arrived,
  some core is in the loop (and stays there).
\<close>

definition barrier_inv :: "world \<Rightarrow> bool" where
  "barrier_inv w =
     (threadsEngaged w = of_nat (count_arrived w) \<and>
      (\<forall>j < length (cores w).
         passed (cores w ! j) \<longrightarrow> unat (threadCount w) \<le> count_arrived w) \<and>
      (unat (threadCount w) < count_arrived w \<longrightarrow>
         (\<exists>j < length (cores w). cpc (cores w ! j) = AtSpin)))"

text \<open>The invariant on the values, \<open>cs\<close> being the counters the cores entered with.\<close>

definition value_inv :: "64 word list \<Rightarrow> world \<Rightarrow> bool" where
  "value_inv cs w =
     (length (cores w) = length cs \<and>
      (\<forall>j < length cs. cpc (cores w ! j) \<noteq> Finished \<longrightarrow> tsc (cores w ! j) = cs ! j) \<and>
      (\<forall>j < length cs. proposed (cores w ! j) \<longrightarrow> cs ! j \<le> targetTSC w) \<and>
      (targetTSC w = 0 \<or> targetTSC w \<in> set cs) \<and>
      (\<forall>j < length cs. cpc (cores w ! j) = Finished \<longrightarrow> tsc (cores w ! j) = targetTSC w))"

fun steps_left :: "sync_pc \<Rightarrow> nat" where
  "steps_left AtLockFreq = 5"
| "steps_left AtFetchMax = 4"
| "steps_left AtFetchAdd = 3"
| "steps_left AtSpin = 2"
| "steps_left AtWrite = 1"
| "steps_left Finished = 0"

definition work_left :: "world \<Rightarrow> nat" where
  "work_left w = sum_list (map (\<lambda>c. steps_left (cpc c)) (cores w))"

text \<open>
  How far a core is in \<^verbatim>\<open>sync\<close>, and schedules that let every core act: a block
  covers the machine when every core occurs in it.
\<close>

fun pc_rank :: "sync_pc \<Rightarrow> nat" where
  "pc_rank AtLockFreq = 0"
| "pc_rank AtFetchMax = 1"
| "pc_rank AtFetchAdd = 2"
| "pc_rank AtSpin = 3"
| "pc_rank AtWrite = 4"
| "pc_rank Finished = 5"

definition covers :: "nat \<Rightarrow> nat list \<Rightarrow> bool" where
  "covers n sched = (\<forall>i < n. i \<in> set sched)"

definition ranks_at_least :: "nat \<Rightarrow> world \<Rightarrow> bool" where
  "ranks_at_least k w = (\<forall>j < length (cores w). min k 5 \<le> pc_rank (cpc (cores w ! j)))"

text \<open>What a round starts from: lines 95 to 99 of \<^verbatim>\<open>syncAll\<close>, after the gate is taken.\<close>

definition round_start :: "world \<Rightarrow> world" where
  "round_start w =
     w\<lparr>synchronising := True, synchronised := False, threadsEngaged := 0, targetTSC := 0\<rparr>"

definition round_end :: "world \<Rightarrow> world" where
  "round_end w = w\<lparr>synchronising := False, synchronised := True\<rparr>"

section \<open>Inputs used as examples\<close>

text \<open>
  The spec's scenario: four cores with counters 100, 150, 120 and 140, a thread count of
  four, and stale values in the round state.
\<close>

definition four_cores :: world where
  "four_cores =
     \<lparr>systemAwake = True, synchronised = False, synchronising = False,
      threadsEngaged = 4, targetTSC = 90, threadCount = 4, amd17h = True, tscAdjust = False,
      timer = Some \<lparr>enabled = True, timeout = Some 5000\<rparr>,
      cores = [\<lparr>cpc = Finished, tsc = 100, hwcr = 0\<rparr>, \<lparr>cpc = Finished, tsc = 150, hwcr = 0\<rparr>,
               \<lparr>cpc = Finished, tsc = 120, hwcr = 0\<rparr>, \<lparr>cpc = Finished, tsc = 140, hwcr = 0\<rparr>],
      calls = []\<rparr>"

text \<open>
  The state the wrapper leaves on a \<^verbatim>\<open>kIOPMTracePointSleepCPUs\<close> event: both flags
  false, the timer stopped, the original routine called.
\<close>

definition after_sleep :: "64 word \<Rightarrow> world \<Rightarrow> world" where
  "after_sleep that w =
     call_original (TracePoint that kIOPMTracePointSleepCPUs)
       (stopTimer (w\<lparr>systemAwake := False, synchronised := False\<rparr>))"

text \<open>
  A processor of unknown vendor whose CPUID leaf 1 sets the hyper-threading feature bit
  (EDX bit 28) and reports zero logical processors in EBX bits 16 to 23; a machine that
  answers no probe at all; and the singleton before \<^verbatim>\<open>init\<close>, on a machine of two
  cores.
\<close>

definition htt_without_count :: probes where
  "htt_without_count =
     \<lparr>info = \<lparr>cpuVendor = Unknown, cpuFamily = 0, cpuModel = 0\<rparr>,
      getCpuid = (\<lambda>leaf. if leaf = 1 then Some (0, 0, 0, 0x10000000) else None),
      msr_core_thread_count = 0,
      timer_created = True\<rparr>"

definition no_probes :: probes where
  "no_probes =
     \<lparr>info = \<lparr>cpuVendor = Unknown, cpuFamily = 0, cpuModel = 0\<rparr>,
      getCpuid = (\<lambda>leaf. None),
      msr_core_thread_count = 0,
      timer_created = False\<rparr>"

definition at_boot :: world where
  "at_boot =
     \<lparr>systemAwake = True, synchronised = False, synchronising = False,
      threadsEngaged = 0, targetTSC = 0, threadCount = 0, amd17h = False, tscAdjust = False,
      timer = None,
      cores = [\<lparr>cpc = Finished, tsc = 100, hwcr = 0\<rparr>, \<lparr>cpc = Finished, tsc = 150, hwcr = 0\<rparr>],
      calls = []\<rparr>"

text \<open>
  A machine of two cores with an accurate thread count, and two threads that have just
  called \<^verbatim>\<open>syncAll\<close>: two timer callbacks, or a timer callback and a clock read.
\<close>

definition two_cores :: world where
  "two_cores =
     \<lparr>systemAwake = True, synchronised = False, synchronising = False,
      threadsEngaged = 0, targetTSC = 0, threadCount = 2, amd17h = False, tscAdjust = False,
      timer = Some \<lparr>enabled = True, timeout = Some 5000\<rparr>,
      cores = [\<lparr>cpc = Finished, tsc = 100, hwcr = 0\<rparr>, \<lparr>cpc = Finished, tsc = 150, hwcr = 0\<rparr>],
      calls = []\<rparr>"

definition two_periodic :: sys where
  "two_periodic =
     \<lparr>machine = two_cores,
      callers = [\<lparr>kpc = L89, is_timer = True\<rparr>, \<lparr>kpc = L89, is_timer = True\<rparr>]\<rparr>"

definition timer_and_clock :: sys where
  "timer_and_clock =
     \<lparr>machine = two_cores,
      callers = [\<lparr>kpc = L89, is_timer = True\<rparr>, \<lparr>kpc = L89, is_timer = False\<rparr>]\<rparr>"

definition alternate :: "nat list" where
  "alternate = [0, 1, 0, 1, 0, 1, 0, 1, 0, 1]"

definition one_after_the_other :: "(nat \<times> nat list) list" where
  "one_after_the_other =
     [(0, []), (0, []), (0, []), (0, []), (0, []), (0, []), (0, alternate), (0, []), (0, []),
      (1, []), (1, []), (1, []), (1, []), (1, []), (1, []), (1, alternate), (1, []), (1, [])]"

definition late_store :: "(nat \<times> nat list) list" where
  "late_store =
     [(0, []), (0, []), (0, []), (0, []), (0, []), (0, []), (0, alternate), (0, []),
      (1, []), (1, []), (1, []), (1, []),
      (0, [])]"

definition both_at_the_gate :: "(nat \<times> nat list) list" where
  "both_at_the_gate = [(0, []), (1, []), (0, []), (1, []), (0, []), (1, [])]"





text \<open>
  An original routine that records what it is called with and what it sees: its two
  arguments, \<^verbatim>\<open>systemAwake\<close>, \<^verbatim>\<open>synchronised\<close> and the cores' counters.
\<close>

definition observe ::
    "'a \<Rightarrow> 'b \<Rightarrow> world \<Rightarrow> ('a \<times> 'b \<times> bool \<times> bool \<times> 64 word list) list \<Rightarrow>
     ('a \<times> 'b \<times> bool \<times> bool \<times> 64 word list) list" where
  "observe a b w k = k @ [(a, b, systemAwake w, synchronised w, map tsc (cores w))]"

text \<open>
  A caller past line 95 and not yet past line 104 has marked the counters invalid and
  still holds the gate.
\<close>

definition past_L95 :: "call_pc \<Rightarrow> bool" where
  "past_L95 p = (p = L98 \<or> p = L99 \<or> p = L102 \<or> p = L104)"

section \<open>Facts about a round\<close>

lemma run_append: "run (xs @ ys) w = run ys (run xs w)"
  by (induction xs arbitrary: w) simp_all

lemma length_filter_update:
  "i < length xs \<Longrightarrow>
   length (filter Q (xs[i := x])) + (if Q (xs ! i) then 1 else 0) =
   length (filter Q xs) + (if Q x then 1 else 0)"
proof (induction xs arbitrary: i)
  case Nil
  then show ?case by simp
next
  case (Cons y ys)
  then show ?case by (cases i) auto
qed

lemma count_arrived_le: "count_arrived w \<le> length (cores w)"
  by (simp add: count_arrived_def)

lemma count_arrived_all: "count_arrived w = length (cores w) \<longleftrightarrow> (\<forall>j < length (cores w). arrived (cores w ! j))"
  unfolding count_arrived_def
  by (metis filter_id_conv length_filter_less less_irrefl_nat in_set_conv_nth)

lemma length_cores_sync_step [simp]: "length (cores (sync_step i w)) = length (cores w)"
  by (simp add: sync_step_def Let_def split: sync_pc.splits)

lemma threadCount_sync_step [simp]: "threadCount (sync_step i w) = threadCount w"
  by (simp add: sync_step_def Let_def split: sync_pc.splits)

lemma barrier_inv_released:
  assumes "barrier_inv w" "length (cores w) < 2 ^ 32" "threadsEngaged w = threadCount w"
  shows "unat (threadCount w) = count_arrived w"
proof -
  have "count_arrived w < 2 ^ LENGTH(32)"
    using count_arrived_le [of w] assms(2) by simp
  moreover have "of_nat (count_arrived w) = threadCount w"
    using assms(1,3) by (simp add: barrier_inv_def)
  ultimately show ?thesis by (rule of_nat_inverse [rotated])
qed

lemma cores_sync_step_other:
  "j \<noteq> i \<Longrightarrow> cores (sync_step i w) ! j = cores w ! j"
  by (simp add: sync_step_def Let_def split: sync_pc.splits)

lemma cpc_sync_step_self:
  "i < length (cores w) \<Longrightarrow> cpc (cores (sync_step i w) ! i) = next_pc w (cpc (cores w ! i))"
  by (simp add: sync_step_def Let_def next_pc_def lockFreq_def split: sync_pc.splits)

lemma tsc_sync_step_self:
  "i < length (cores w) \<Longrightarrow>
   tsc (cores (sync_step i w) ! i) =
     (if cpc (cores w ! i) = AtWrite then targetTSC w else tsc (cores w ! i))"
  by (simp add: sync_step_def Let_def lockFreq_def split: sync_pc.splits)

lemma threadsEngaged_sync_step:
  "threadsEngaged (sync_step i w) =
     (if i < length (cores w) \<and> cpc (cores w ! i) = AtFetchAdd
      then threadsEngaged w + 1 else threadsEngaged w)"
  by (simp add: sync_step_def Let_def split: sync_pc.splits)

lemma targetTSC_sync_step:
  "targetTSC (sync_step i w) =
     (if i < length (cores w) \<and> cpc (cores w ! i) = AtFetchMax
      then max (targetTSC w) (tsc (cores w ! i)) else targetTSC w)"
  by (simp add: sync_step_def Let_def split: sync_pc.splits)

lemma cores_sync_step_update:
  "i < length (cores w) \<Longrightarrow> cores (sync_step i w) = (cores w)[i := cores (sync_step i w) ! i]"
  by (simp add: sync_step_def Let_def split: sync_pc.splits)

lemma count_arrived_sync_step:
  "count_arrived (sync_step i w) =
     (if i < length (cores w) \<and> cpc (cores w ! i) = AtFetchAdd
      then count_arrived w + 1 else count_arrived w)"
proof (cases "i < length (cores w)")
  case False
  then show ?thesis by (simp add: sync_step_def)
next
  case True
  have "length (filter arrived ((cores w)[i := cores (sync_step i w) ! i])) +
          (if arrived (cores w ! i) then 1 else 0) =
        count_arrived w + (if arrived (cores (sync_step i w) ! i) then 1 else 0)"
    unfolding count_arrived_def by (rule length_filter_update [OF True])
  then have "count_arrived (sync_step i w) + (if arrived (cores w ! i) then 1 else 0) =
        count_arrived w + (if arrived (cores (sync_step i w) ! i) then 1 else 0)"
    using cores_sync_step_update [OF True] by (simp add: count_arrived_def)
  then show ?thesis
    using True cpc_sync_step_self [OF True]
    by (cases "cpc (cores w ! i)") (auto simp: arrived_def next_pc_def split: if_splits)
qed

lemma barrier_inv_step:
  assumes inv: "barrier_inv w" and small: "length (cores w) < 2 ^ 32"
  shows "barrier_inv (sync_step i w)"
  unfolding barrier_inv_def
proof (intro conjI allI impI)
  show "threadsEngaged (sync_step i w) = of_nat (count_arrived (sync_step i w))"
    using inv by (simp add: barrier_inv_def threadsEngaged_sync_step count_arrived_sync_step)
next
  fix j
  assume j: "j < length (cores (sync_step i w))" and p: "passed (cores (sync_step i w) ! j)"
  have mono: "count_arrived w \<le> count_arrived (sync_step i w)"
    by (simp add: count_arrived_sync_step)
  show "unat (threadCount (sync_step i w)) \<le> count_arrived (sync_step i w)"
  proof (cases "passed (cores w ! j)")
    case True
    then show ?thesis using inv j mono by (auto simp: barrier_inv_def)
  next
    case False
    then have ji: "j = i" using p cores_sync_step_other [of j i w] by (cases "j = i") auto
    then have "cpc (cores w ! i) = AtSpin" and "threadsEngaged w = threadCount w"
      using False p j cpc_sync_step_self [of i w]
      by (cases "cpc (cores w ! i)"; auto simp: passed_def next_pc_def split: if_splits)+
    then have "unat (threadCount w) = count_arrived w"
      using inv small by (simp add: barrier_inv_released)
    then show ?thesis using mono by simp
  qed
next
  assume gt: "unat (threadCount (sync_step i w)) < count_arrived (sync_step i w)"
  show "\<exists>j<length (cores (sync_step i w)). cpc (cores (sync_step i w) ! j) = AtSpin"
  proof (cases "i < length (cores w) \<and> cpc (cores w ! i) = AtFetchAdd")
    case True
    then have "cpc (cores (sync_step i w) ! i) = AtSpin"
      by (simp add: cpc_sync_step_self next_pc_def)
    then show ?thesis using True by auto
  next
    case False
    then have gt': "unat (threadCount w) < count_arrived w"
      using gt by (auto simp: count_arrived_sync_step split: if_splits)
    then obtain j where j: "j < length (cores w)" "cpc (cores w ! j) = AtSpin"
      using inv by (auto simp: barrier_inv_def)
    have ne: "threadsEngaged w \<noteq> threadCount w"
      using inv small gt' barrier_inv_released [of w] by auto
    have "cpc (cores (sync_step i w) ! j) = AtSpin"
    proof (cases "j = i")
      case True
      then show ?thesis using j ne by (simp add: cpc_sync_step_self next_pc_def)
    next
      case False
      then show ?thesis using j by (simp add: cores_sync_step_other)
    qed
    then show ?thesis using j by auto
  qed
qed

lemma length_cores_run [simp]: "length (cores (run sched w)) = length (cores w)"
  by (induction sched arbitrary: w) simp_all

lemma threadCount_run [simp]: "threadCount (run sched w) = threadCount w"
  by (induction sched arbitrary: w) simp_all

lemma barrier_inv_run:
  "barrier_inv w \<Longrightarrow> length (cores w) < 2 ^ 32 \<Longrightarrow> barrier_inv (run sched w)"
  by (induction sched arbitrary: w) (simp_all add: barrier_inv_step)

lemma count_arrived_enter_sync: "count_arrived (enter_sync w) = 0"
  by (simp add: count_arrived_def enter_sync_def arrived_def filter_empty_conv)

lemma barrier_inv_enter_sync:
  "threadsEngaged w = 0 \<Longrightarrow> barrier_inv (enter_sync w)"
  unfolding barrier_inv_def count_arrived_enter_sync
  by (simp add: enter_sync_def passed_def)

lemma all_done_nth: "all_done w \<longleftrightarrow> (\<forall>j < length (cores w). cpc (cores w ! j) = Finished)"
  by (simp add: all_done_def list_all_length)

lemma all_done_accurate:
  assumes inv: "barrier_inv w" and small: "length (cores w) < 2 ^ 32"
    and ne: "cores w \<noteq> []" and fin: "all_done w"
  shows "length (cores w) = unat (threadCount w)"
proof -
  have arr: "count_arrived w = length (cores w)"
    using fin by (simp add: count_arrived_all all_done_nth arrived_def)
  have "0 < length (cores w)" using ne by simp
  then have "passed (cores w ! 0)" using fin by (simp add: all_done_nth passed_def)
  then have "unat (threadCount w) \<le> count_arrived w"
    using inv \<open>0 < length (cores w)\<close> by (auto simp: barrier_inv_def)
  moreover have "\<not> unat (threadCount w) < count_arrived w"
    using inv fin by (auto simp: barrier_inv_def all_done_nth)
  ultimately show ?thesis using arr by simp
qed

lemma undercount_blocks:
  assumes inv: "barrier_inv w" and few: "length (cores w) < unat (threadCount w)"
    and j: "j < length (cores w)"
  shows "\<not> passed (cores w ! j)"
  using inv j few count_arrived_le [of w] by (auto simp: barrier_inv_def)

lemma sum_list_map_update:
  "i < length xs \<Longrightarrow>
   sum_list (map f (xs[i := x])) + f (xs ! i) = sum_list (map f xs) + (f x :: nat)"
proof (induction xs arbitrary: i)
  case Nil
  then show ?case by simp
next
  case (Cons y ys)
  then show ?case by (cases i) auto
qed

lemma work_left_sync_step:
  assumes "i < length (cores w)"
  shows "work_left (sync_step i w) + steps_left (cpc (cores w ! i)) =
         work_left w + steps_left (next_pc w (cpc (cores w ! i)))"
proof -
  have "sum_list (map (\<lambda>c. steps_left (cpc c)) ((cores w)[i := cores (sync_step i w) ! i])) +
          steps_left (cpc (cores w ! i)) =
        work_left w + steps_left (cpc (cores (sync_step i w) ! i))"
    unfolding work_left_def by (rule sum_list_map_update [OF assms])
  then show ?thesis
    using cores_sync_step_update [OF assms] cpc_sync_step_self [OF assms]
    by (simp add: work_left_def)
qed

lemma some_core_advances:
  assumes inv: "barrier_inv w" and acc: "length (cores w) = unat (threadCount w)"
    and nd: "\<not> all_done w"
  shows "\<exists>i < length (cores w). work_left (sync_step i w) < work_left w"
proof (cases "\<exists>j < length (cores w). cpc (cores w ! j) \<noteq> Finished \<and> cpc (cores w ! j) \<noteq> AtSpin")
  case True
  then obtain j where j: "j < length (cores w)"
    "cpc (cores w ! j) \<noteq> Finished" "cpc (cores w ! j) \<noteq> AtSpin" by blast
  then have "work_left (sync_step j w) < work_left w"
    using work_left_sync_step [OF j(1)]
    by (cases "cpc (cores w ! j)") (simp_all add: next_pc_def)
  then show ?thesis using j(1) by blast
next
  case False
  then have "\<forall>j < length (cores w). arrived (cores w ! j)"
    by (auto simp: arrived_def)
  then have "count_arrived w = length (cores w)"
    by (simp only: count_arrived_all)
  then have "count_arrived w = unat (threadCount w)"
    using acc by simp
  then have rel: "threadsEngaged w = threadCount w"
    using inv by (simp add: barrier_inv_def)
  obtain j where j: "j < length (cores w)" "cpc (cores w ! j) \<noteq> Finished"
    using nd by (auto simp: all_done_nth)
  then have "cpc (cores w ! j) = AtSpin" using False by blast
  then have "work_left (sync_step j w) < work_left w"
    using work_left_sync_step [OF j(1)] rel by (simp add: next_pc_def)
  then show ?thesis using j(1) by blast
qed

lemma round_can_finish:
  assumes "barrier_inv w" "length (cores w) = unat (threadCount w)"
  shows "\<exists>more. all_done (run more w)"
  using assms
proof (induction "work_left w" arbitrary: w rule: less_induct)
  case less
  show ?case
  proof (cases "all_done w")
    case True
    then have "all_done (run [] w)" by simp
    then show ?thesis by blast
  next
    case False
    then obtain i where i: "i < length (cores w)" "work_left (sync_step i w) < work_left w"
      using some_core_advances [OF less.prems] by blast
    have small: "length (cores w) < 2 ^ 32"
      using less.prems(2) unsigned_less [of "threadCount w", where 'a=nat] by simp
    have "barrier_inv (sync_step i w)"
      using less.prems(1) small by (rule barrier_inv_step)
    moreover have "length (cores (sync_step i w)) = unat (threadCount (sync_step i w))"
      using less.prems(2) by simp
    ultimately obtain more where "all_done (run more (sync_step i w))"
      using less.hyps [OF i(2)] by blast
    then have "all_done (run (i # more) w)" by simp
    then show ?thesis by blast
  qed
qed

lemma passed_all_proposed:
  assumes inv: "barrier_inv w" and acc: "length (cores w) = unat (threadCount w)"
    and j: "j < length (cores w)" "passed (cores w ! j)" and k: "k < length (cores w)"
  shows "arrived (cores w ! k)"
proof -
  have "unat (threadCount w) \<le> count_arrived w"
    using inv j by (auto simp: barrier_inv_def)
  then have "count_arrived w = length (cores w)"
    using acc count_arrived_le [of w] by simp
  then show ?thesis using k by (simp only: count_arrived_all)
qed

lemma value_inv_step:
  assumes bar: "barrier_inv w" and acc: "length (cores w) = unat (threadCount w)"
    and val: "value_inv cs w"
  shows "value_inv cs (sync_step i w)"
proof (cases "i < length (cores w)")
  case False
  then show ?thesis using val by (simp add: sync_step_def)
next
  case True
  have len: "length (cores w) = length cs" using val by (simp add: value_inv_def)
  show ?thesis
  proof (cases "cpc (cores w ! i)")
    case AtLockFreq
    then have st: "sync_step i w =
        w\<lparr>cores := (cores w)[i := (lockFreq w (cores w ! i))\<lparr>cpc := AtFetchMax\<rparr>]\<rparr>"
      using True by (simp add: sync_step_def Let_def)
    show ?thesis using val True AtLockFreq unfolding st
      by (auto simp: value_inv_def nth_list_update proposed_def arrived_def lockFreq_def)
  next
    case AtFetchMax
    then have st: "sync_step i w =
        w\<lparr>targetTSC := max (targetTSC w) (tsc (cores w ! i)),
          cores := (cores w)[i := (cores w ! i)\<lparr>cpc := AtFetchAdd\<rparr>]\<rparr>"
      using True by (simp add: sync_step_def Let_def)
    have cand: "tsc (cores w ! i) = cs ! i"
      using val True AtFetchMax by (simp add: value_inv_def)
    have nofin: "\<And>j. j < length cs \<Longrightarrow> cpc (cores w ! j) \<noteq> Finished"
      using passed_all_proposed [OF bar acc _ _ True] AtFetchMax len
      by (auto simp: passed_def arrived_def)
    have mem: "cs ! i \<in> set cs" using True len by simp
    show ?thesis using val True AtFetchMax cand nofin mem unfolding st
      by (auto simp: value_inv_def nth_list_update proposed_def arrived_def max_def)
  next
    case AtFetchAdd
    then have st: "sync_step i w =
        w\<lparr>threadsEngaged := threadsEngaged w + 1,
          cores := (cores w)[i := (cores w ! i)\<lparr>cpc := AtSpin\<rparr>]\<rparr>"
      using True by (simp add: sync_step_def Let_def)
    show ?thesis using val True AtFetchAdd unfolding st
      by (auto simp: value_inv_def nth_list_update proposed_def arrived_def)
  next
    case AtSpin
    show ?thesis
    proof (cases "threadsEngaged w \<noteq> threadCount w")
      case True
      then have "sync_step i w = w"
        using \<open>i < length (cores w)\<close> AtSpin by (simp add: sync_step_def Let_def)
      then show ?thesis using val by simp
    next
      case False
      then have st: "sync_step i w =
          w\<lparr>cores := (cores w)[i := (cores w ! i)\<lparr>cpc := AtWrite\<rparr>]\<rparr>"
        using \<open>i < length (cores w)\<close> AtSpin by (simp add: sync_step_def Let_def)
      show ?thesis using val \<open>i < length (cores w)\<close> AtSpin unfolding st
        by (auto simp: value_inv_def nth_list_update proposed_def arrived_def)
    qed
  next
    case AtWrite
    then have st: "sync_step i w =
        w\<lparr>cores := (cores w)[i := (cores w ! i)\<lparr>tsc := targetTSC w, cpc := Finished\<rparr>]\<rparr>"
      using True by (simp add: sync_step_def Let_def)
    show ?thesis using val True AtWrite unfolding st
      by (auto simp: value_inv_def nth_list_update proposed_def arrived_def)
  next
    case Finished
    then show ?thesis using val True by (simp add: sync_step_def)
  qed
qed

lemma value_inv_run:
  "barrier_inv w \<Longrightarrow> length (cores w) = unat (threadCount w) \<Longrightarrow> value_inv cs w \<Longrightarrow>
   value_inv cs (run sched w)"
proof (induction sched arbitrary: w)
  case Nil
  then show ?case by simp
next
  case (Cons i sched)
  have small: "length (cores w) < 2 ^ 32"
    using Cons.prems(2) unsigned_less [of "threadCount w", where 'a=nat] by simp
  show ?case
    using Cons.IH [of "sync_step i w"] Cons.prems small
    by (simp add: barrier_inv_step value_inv_step)
qed

lemma value_inv_enter_sync:
  "targetTSC w = 0 \<Longrightarrow> value_inv (map tsc (cores w)) (enter_sync w)"
  by (simp add: value_inv_def enter_sync_def proposed_def arrived_def)

lemma value_inv_final:
  assumes val: "value_inv cs w" and fin: "all_done w" and ne: "cs \<noteq> []"
  shows "targetTSC w = Max (set cs)" and "\<forall>c \<in> set (cores w). tsc c = Max (set cs)"
proof -
  have len: "length (cores w) = length cs" using val by (simp add: value_inv_def)
  have ub: "\<And>x. x \<in> set cs \<Longrightarrow> x \<le> targetTSC w"
    using val fin len by (auto simp: value_inv_def all_done_nth proposed_def arrived_def in_set_conv_nth)
  have "targetTSC w \<in> set cs"
  proof (cases "targetTSC w = 0")
    case True
    obtain x where x: "x \<in> set cs" using ne by (cases cs) auto
    then have "x \<le> 0" using ub True by auto
    then show ?thesis using x True by simp
  next
    case False
    then show ?thesis using val by (simp add: value_inv_def)
  qed
  then show t: "targetTSC w = Max (set cs)"
    using ub by (intro Max_eqI [symmetric]) auto
  show "\<forall>c \<in> set (cores w). tsc c = Max (set cs)"
    using val fin len t by (auto simp: value_inv_def all_done_nth in_set_conv_nth)
qed


section \<open>Fair schedules finish the round\<close>

lemma pc_rank_next: "pc_rank p \<le> pc_rank (next_pc w p)"
  by (cases p) (simp_all add: next_pc_def)

lemma pc_rank_sync_step:
  "j < length (cores w) \<Longrightarrow>
   pc_rank (cpc (cores w ! j)) \<le> pc_rank (cpc (cores (sync_step i w) ! j))"
  by (cases "j = i") (simp_all add: cpc_sync_step_self cores_sync_step_other pc_rank_next)

lemma arrived_rank: "arrived c \<longleftrightarrow> 3 \<le> pc_rank (cpc c)"
  by (cases "cpc c") (simp_all add: arrived_def)

lemma step_advances:
  assumes inv: "barrier_inv w" and acc: "length (cores w) = unat (threadCount w)"
    and all: "ranks_at_least k w" and i: "i < length (cores w)"
  shows "min (Suc k) 5 \<le> pc_rank (cpc (cores (sync_step i w) ! i))"
proof (cases "k < pc_rank (cpc (cores w ! i))")
  case True
  then show ?thesis using pc_rank_sync_step [OF i, of i] by simp
next
  case False
  have lo: "min k 5 \<le> pc_rank (cpc (cores w ! i))"
    using all i by (simp add: ranks_at_least_def)
  show ?thesis
  proof (cases "cpc (cores w ! i)")
    case AtSpin
    then have "3 \<le> k" using False by simp
    then have "\<forall>j < length (cores w). arrived (cores w ! j)"
      using all by (auto simp: ranks_at_least_def arrived_rank)
    then have "count_arrived w = length (cores w)"
      by (simp only: count_arrived_all)
    then have "threadsEngaged w = threadCount w"
      using inv acc by (simp add: barrier_inv_def)
    then show ?thesis using AtSpin i lo
      by (simp add: cpc_sync_step_self next_pc_def)
  qed (use False lo i in \<open>simp_all add: cpc_sync_step_self next_pc_def\<close>)
qed

lemma ranks_at_least_step:
  "ranks_at_least k w \<Longrightarrow> ranks_at_least k (sync_step i w)"
  unfolding ranks_at_least_def
  using pc_rank_sync_step [of _ w i] by (auto intro: order_trans)

lemma block_advances:
  assumes "barrier_inv w" and "length (cores w) = unat (threadCount w)"
    and "ranks_at_least k w"
    and "\<forall>j \<in> D. j < length (cores w) \<longrightarrow> min (Suc k) 5 \<le> pc_rank (cpc (cores w ! j))"
  shows "\<forall>j \<in> D \<union> set sched. j < length (cores w) \<longrightarrow>
           min (Suc k) 5 \<le> pc_rank (cpc (cores (run sched w) ! j))"
  using assms
proof (induction sched arbitrary: w D)
  case Nil
  then show ?case by simp
next
  case (Cons i sched)
  let ?w = "sync_step i w"
  have small: "length (cores w) < 2 ^ 32"
    using Cons.prems(2) unsigned_less [of "threadCount w", where 'a=nat] by simp
  have 1: "barrier_inv ?w" using Cons.prems(1) small by (rule barrier_inv_step)
  have 2: "length (cores ?w) = unat (threadCount ?w)" using Cons.prems(2) by simp
  have 3: "ranks_at_least k ?w" using Cons.prems(3) by (rule ranks_at_least_step)
  have 4: "\<forall>j \<in> insert i D. j < length (cores ?w) \<longrightarrow>
             min (Suc k) 5 \<le> pc_rank (cpc (cores ?w ! j))"
  proof (intro ballI impI)
    fix j assume j: "j \<in> insert i D" "j < length (cores ?w)"
    show "min (Suc k) 5 \<le> pc_rank (cpc (cores ?w ! j))"
    proof (cases "j = i")
      case True
      then show ?thesis
        using step_advances [OF Cons.prems(1,2,3)] j by simp
    next
      case False
      then have "min (Suc k) 5 \<le> pc_rank (cpc (cores w ! j))"
        using Cons.prems(4) j by simp
      then show ?thesis using False by (simp add: cores_sync_step_other)
    qed
  qed
  show ?case using Cons.IH [OF 1 2 3 4] by simp
qed

lemma covering_block_advances:
  assumes "barrier_inv w" and "length (cores w) = unat (threadCount w)"
    and "ranks_at_least k w" and "covers (length (cores w)) sched"
  shows "ranks_at_least (Suc k) (run sched w)"
  using block_advances [OF assms(1,2,3), of "{}" sched] assms(4)
  by (simp add: ranks_at_least_def covers_def)

lemma fair_blocks_advance:
  assumes "barrier_inv w" and "length (cores w) = unat (threadCount w)"
    and "ranks_at_least k w" and "\<forall>b \<in> set blocks. covers (length (cores w)) b"
  shows "ranks_at_least (k + length blocks) (run (concat blocks) w)"
  using assms
proof (induction blocks arbitrary: w k)
  case Nil
  then show ?case by simp
next
  case (Cons b blocks)
  have small: "length (cores w) < 2 ^ 32"
    using Cons.prems(2) unsigned_less [of "threadCount w", where 'a=nat] by simp
  have "ranks_at_least (Suc k) (run b w)"
    using Cons.prems by (intro covering_block_advances) simp_all
  moreover have "barrier_inv (run b w)"
    using Cons.prems(1) small by (rule barrier_inv_run)
  ultimately have "ranks_at_least (Suc k + length blocks) (run (concat blocks) (run b w))"
    using Cons.prems(2,4) by (intro Cons.IH) simp_all
  then show ?case by (simp add: run_append)
qed

lemma finished_rank: "(p = Finished) = (5 \<le> pc_rank p)"
  by (cases p) simp_all

lemma all_done_rank: "all_done w \<longleftrightarrow> ranks_at_least 5 w"
  by (simp add: all_done_nth ranks_at_least_def finished_rank)

lemma fair_schedule_finishes:
  assumes "barrier_inv w" and "length (cores w) = unat (threadCount w)"
    and "5 \<le> length blocks" and "\<forall>b \<in> set blocks. covers (length (cores w)) b"
  shows "all_done (run (concat blocks) w)"
proof -
  have "ranks_at_least 0 w" by (simp add: ranks_at_least_def)
  from fair_blocks_advance [OF assms(1,2) this assms(4)]
  have "ranks_at_least (length blocks) (run (concat blocks) w)" by simp
  then show ?thesis
    using assms(3) unfolding all_done_rank ranks_at_least_def by (simp add: min_absorb2)
qed

section \<open>The round: barrier and agreed value\<close>

lemma frame_sync_step [simp]:
  "systemAwake (sync_step i w) = systemAwake w"
  "synchronised (sync_step i w) = synchronised w"
  "synchronising (sync_step i w) = synchronising w"
  "amd17h (sync_step i w) = amd17h w"
  "tscAdjust (sync_step i w) = tscAdjust w"
  "timer (sync_step i w) = timer w"
  "calls (sync_step i w) = calls w"
  by (simp_all add: sync_step_def Let_def split: sync_pc.splits)

lemma frame_run [simp]:
  "systemAwake (run sched w) = systemAwake w"
  "synchronised (run sched w) = synchronised w"
  "synchronising (run sched w) = synchronising w"
  "amd17h (run sched w) = amd17h w"
  "tscAdjust (run sched w) = tscAdjust w"
  "timer (run sched w) = timer w"
  "calls (run sched w) = calls w"
  by (induction sched arbitrary: w) simp_all

lemma frame_enter_sync [simp]:
  "systemAwake (enter_sync w) = systemAwake w"
  "synchronised (enter_sync w) = synchronised w"
  "synchronising (enter_sync w) = synchronising w"
  "threadsEngaged (enter_sync w) = threadsEngaged w"
  "targetTSC (enter_sync w) = targetTSC w"
  "threadCount (enter_sync w) = threadCount w"
  "amd17h (enter_sync w) = amd17h w"
  "tscAdjust (enter_sync w) = tscAdjust w"
  "timer (enter_sync w) = timer w"
  "calls (enter_sync w) = calls w"
  "length (cores (enter_sync w)) = length (cores w)"
  by (simp_all add: enter_sync_def)

lemma rendezvous_Some:
  "mp_rendezvous_no_intrs sched w = Some w' \<longleftrightarrow>
     w' = run sched (enter_sync w) \<and> all_done (run sched (enter_sync w))"
  by (auto simp: mp_rendezvous_no_intrs_def Let_def)

lemma rendezvous_not_None:
  "mp_rendezvous_no_intrs sched w \<noteq> None \<longleftrightarrow> all_done (run sched (enter_sync w))"
  by (simp add: mp_rendezvous_no_intrs_def Let_def)


lemma syncAll_skip:
  "\<not> systemAwake w \<or> (\<not> timer_arg \<and> synchronised w) \<or> synchronising w \<Longrightarrow>
   syncAll timer_arg sched w = Some (Skipped, w)"
  by (cases w) (auto simp: syncAll_def atomic_exchange_synchronising_def)

lemma syncAll_proceed:
  "systemAwake w \<Longrightarrow> timer_arg \<or> \<not> synchronised w \<Longrightarrow> \<not> synchronising w \<Longrightarrow>
   syncAll timer_arg sched w =
     map_option (\<lambda>w'. (Synced, round_end w')) (mp_rendezvous_no_intrs sched (round_start w))"
  by (auto simp: syncAll_def atomic_exchange_synchronising_def round_start_def round_end_def
      split: option.splits)

lemma syncAll_Synced:
  "syncAll timer_arg sched w = Some (Synced, w') \<longleftrightarrow>
     systemAwake w \<and> (timer_arg \<or> \<not> synchronised w) \<and> \<not> synchronising w \<and>
     all_done (run sched (enter_sync (round_start w))) \<and>
     w' = round_end (run sched (enter_sync (round_start w)))"
proof (cases "\<not> systemAwake w \<or> (\<not> timer_arg \<and> synchronised w) \<or> synchronising w")
  case True
  then show ?thesis using syncAll_skip [OF True, of sched] by auto
next
  case False
  then show ?thesis
    using syncAll_proceed [of w timer_arg sched]
    by (auto simp: rendezvous_Some)
qed

lemma fold_max_zero:
  assumes "cs \<noteq> []"
  shows "fold max cs (0 :: 64 word) = Max (set cs)"
proof (cases cs)
  case Nil
  then show ?thesis using assms by simp
next
  case (Cons x xs)
  have "fold max (x # xs) (0 :: 64 word) = fold max xs x" by (simp add: max_def)
  also have "\<dots> = Max (set (x # xs))" by (rule Max.set_eq_fold [symmetric])
  finally show ?thesis using Cons by simp
qed

text \<open>
  Claim C5. With the counter reset and a machine of at least one and fewer than \<open>2^32\<close>
  cores (the counter is 32 bits wide), the rendezvous can return, every core having left
  the spin loop and finished, exactly when the number of cores running the round action
  equals \<^verbatim>\<open>threadCount\<close>. When the numbers agree the round ends under every fair
  schedule: whatever happened so far, once every core has been given a turn five times
  over, all cores have finished. While fewer than \<^verbatim>\<open>threadCount\<close> cores have arrived
  no core is past the loop, and with fewer cores than \<^verbatim>\<open>threadCount\<close> that is so in
  every interleaving: every core that arrived spins forever.
\<close>

theorem barrier_releases_iff_exact_count:
  assumes "threadsEngaged w = 0" and "cores w \<noteq> []" and "length (cores w) < 2 ^ 32"
  shows "((\<exists>sched. mp_rendezvous_no_intrs sched w \<noteq> None) \<longleftrightarrow>
            length (cores w) = unat (threadCount w)) \<and>
         (length (cores w) = unat (threadCount w) \<longrightarrow>
            (\<forall>sched blocks.
               5 \<le> length blocks \<and> (\<forall>b \<in> set blocks. covers (length (cores w)) b) \<longrightarrow>
               mp_rendezvous_no_intrs (sched @ concat blocks) w \<noteq> None)) \<and>
         (\<forall>sched. count_arrived (run sched (enter_sync w)) < unat (threadCount w) \<longrightarrow>
            (\<forall>j < length (cores w). \<not> passed (cores (run sched (enter_sync w)) ! j))) \<and>
         (length (cores w) < unat (threadCount w) \<longrightarrow>
            (\<forall>sched. count_arrived (run sched (enter_sync w)) < unat (threadCount w)))"
proof -
  have start: "barrier_inv (enter_sync w)"
    using assms(1) by (rule barrier_inv_enter_sync)
  have small: "length (cores (enter_sync w)) < 2 ^ 32"
    using assms(3) by simp
  have reach: "barrier_inv (run sched (enter_sync w))" for sched
    using start small by (rule barrier_inv_run)
  have only_if: "length (cores w) = unat (threadCount w)"
    if "all_done (run sched (enter_sync w))" for sched
  proof -
    have "cores (run sched (enter_sync w)) \<noteq> []"
      using assms(2) length_cores_run [of sched "enter_sync w"] by (auto simp del: length_cores_run)
    then show ?thesis
      using all_done_accurate [OF reach [of sched] _ _ that] assms(3) by simp
  qed
  have extend: "\<exists>more. all_done (run (sched @ more) (enter_sync w))"
    if "length (cores w) = unat (threadCount w)" for sched
    using round_can_finish [OF reach [of sched]] that by (simp add: run_append)
  have fair: "all_done (run (sched @ concat blocks) (enter_sync w))"
    if "length (cores w) = unat (threadCount w)" and "5 \<le> length blocks"
      and "\<forall>b \<in> set blocks. covers (length (cores w)) b" for sched blocks
    using fair_schedule_finishes [OF reach [of sched], of blocks] that by (simp add: run_append)
  have blocked: "\<not> passed (cores (run sched (enter_sync w)) ! j)"
    if "count_arrived (run sched (enter_sync w)) < unat (threadCount w)"
      and "j < length (cores w)" for sched j
    using reach [of sched] that by (auto simp: barrier_inv_def)
  have few: "count_arrived (run sched (enter_sync w)) < unat (threadCount w)"
    if "length (cores w) < unat (threadCount w)" for sched
    using count_arrived_le [of "run sched (enter_sync w)"] that by simp
  have "(\<exists>sched. mp_rendezvous_no_intrs sched w \<noteq> None) \<longleftrightarrow>
          length (cores w) = unat (threadCount w)"
    unfolding rendezvous_not_None using only_if extend [of "[]"] by auto
  then show ?thesis
    unfolding rendezvous_not_None using fair blocked few by blast
qed

lemma synced_round_result:
  assumes "cores w \<noteq> []" and "length (cores w) < 2 ^ 32"
    and "syncAll timer_arg sched w = Some (Synced, w')"
  shows "targetTSC w' = Max (set (map tsc (cores w))) \<and>
         targetTSC w' = fold max (map tsc (cores w)) 0 \<and>
         length (cores w') = length (cores w) \<and>
         (\<forall>c \<in> set (cores w'). cpc c = Finished \<and> tsc c = targetTSC w')"
proof -
  let ?w0 = "enter_sync (round_start w)"
  let ?r = "run sched ?w0"
  have fin: "all_done ?r" and w': "w' = round_end ?r"
    using assms(3) by (simp_all add: syncAll_Synced)
  have bar0: "barrier_inv ?w0"
    by (rule barrier_inv_enter_sync) (simp add: round_start_def)
  have len0: "length (cores ?w0) = length (cores w)"
    by (simp add: round_start_def)
  have bar: "barrier_inv ?r"
    using bar0 assms(2) len0 by (simp add: barrier_inv_run)
  have "cores ?r \<noteq> []"
    using assms(1) len0 length_cores_run [of sched ?w0] by (auto simp del: length_cores_run)
  then have acc: "length (cores ?w0) = unat (threadCount ?w0)"
    using all_done_accurate [OF bar _ _ fin] assms(2) len0 by simp
  have cs: "map tsc (cores (round_start w)) = map tsc (cores w)"
    by (simp add: round_start_def)
  have "value_inv (map tsc (cores w)) ?w0"
    using value_inv_enter_sync [of "round_start w"] by (simp add: round_start_def)
  then have val: "value_inv (map tsc (cores w)) ?r"
    using bar0 acc by (simp add: value_inv_run)
  have ne: "map tsc (cores w) \<noteq> []" using assms(1) by simp
  note final = value_inv_final [OF val fin ne]
  have "\<forall>c \<in> set (cores ?r). cpc c = Finished"
    using fin by (simp add: all_done_def list_all_iff)
  then show ?thesis
    using final w' len0 fold_max_zero [OF ne] by (simp add: round_end_def)
qed

text \<open>
  Claim C1. Whenever \<^verbatim>\<open>syncAll\<close> completes a round, under any interleaving of the
  cores, the agreed \<^verbatim>\<open>targetTSC\<close> is the maximum of the counters the cores entered the
  round with, which is also what folding fetch-max over them from zero gives in any fixed
  order, and every core has finished and has written exactly that value to its counter.
\<close>

theorem round_adopts_maximum:
  assumes "cores w \<noteq> []" and "length (cores w) < 2 ^ 32"
    and "syncAll timer_arg sched w = Some (Synced, w')"
  shows "targetTSC w' = Max (set (map tsc (cores w))) \<and>
         targetTSC w' = fold max (map tsc (cores w)) 0 \<and>
         length (cores w') = length (cores w) \<and>
         (\<forall>c \<in> set (cores w'). cpc c = Finished \<and> tsc c = targetTSC w')"
  using assms by (rule synced_round_result)

lemma list_update_Cons_numeral:
  "(x # xs)[numeral n := y] = x # xs[pred_numeral n := y]"
  by (simp add: numeral_eq_Suc)

lemmas round_eval =
  enter_sync_def sync_step_def all_done_def lockFreq_def round_start_def
  MSR_HWCR_LOCK_TSC_TO_CURR_P0_def getBit_def list_update_Cons_numeral

theorem barrier_releases_iff_exact_count_witness:
  "threadsEngaged (round_start four_cores) = 0 \<and> cores (round_start four_cores) \<noteq> [] \<and>
   length (cores (round_start four_cores)) < 2 ^ 32 \<and>
   length (cores (round_start four_cores)) = unat (threadCount (round_start four_cores)) \<and>
   mp_rendezvous_no_intrs
     (concat [[3, 2, 1, 0], [0, 1, 2, 3], [1, 3, 0, 2], [0, 1, 2, 3], [2, 0, 3, 1]])
     (round_start four_cores) \<noteq> None"
proof -
  let ?w = "round_start four_cores"
  let ?blocks = "[[3, 2, 1, 0], [0, 1, 2, 3], [1, 3, 0, 2], [0, 1, 2, 3], [2, 0, 3, 1]] :: nat list list"
  have h: "threadsEngaged ?w = 0" "cores ?w \<noteq> []" "length (cores ?w) < 2 ^ 32"
    and acc: "length (cores ?w) = unat (threadCount ?w)"
    by (simp_all add: round_start_def four_cores_def)
  have "\<forall>i < 4. i \<in> {0, 1, 2, Suc (Suc (Suc 0))}"
    by (auto simp: less_Suc_eq numeral_eq_Suc)
  then have "\<forall>b \<in> set ?blocks. covers (length (cores ?w)) b"
    by (auto simp: covers_def round_start_def four_cores_def numeral_eq_Suc)
  moreover have "5 \<le> length ?blocks" by simp
  ultimately have "mp_rendezvous_no_intrs ([] @ concat ?blocks) ?w \<noteq> None"
    using barrier_releases_iff_exact_count [OF h] acc by blast
  then show ?thesis using h acc by simp
qed

theorem round_adopts_maximum_witness:
  "cores four_cores \<noteq> [] \<and> length (cores four_cores) < 2 ^ 32 \<and>
   (\<exists>w'. syncAll False [3, 1, 0, 2, 2, 0, 1, 3, 0, 0, 3, 2, 1, 2, 0, 3, 1, 1, 3, 0, 2] four_cores
           = Some (Synced, w') \<and>
         targetTSC w' = 150 \<and> map tsc (cores w') = [150, 150, 150, 150])"
proof -
  let ?sched = "[3, 1, 0, 2, 2, 0, 1, 3, 0, 0, 3, 2, 1, 2, 0, 3, 1, 1, 3, 0, 2] :: nat list"
  have ne: "cores four_cores \<noteq> []" and small: "length (cores four_cores) < 2 ^ 32"
    by (simp_all add: four_cores_def)
  have "all_done (run ?sched (enter_sync (round_start four_cores)))"
    by (simp add: four_cores_def round_eval)
  then obtain w' where w': "syncAll False ?sched four_cores = Some (Synced, w')"
    by (simp add: syncAll_Synced four_cores_def)
  have "Max (set (map tsc (cores four_cores))) = 150"
    by (simp add: four_cores_def)
  then have t: "targetTSC w' = 150" and c: "\<forall>c \<in> set (cores w'). tsc c = 150"
    and l: "length (cores w') = 4"
    using round_adopts_maximum [OF ne small w'] by (simp_all add: four_cores_def)
  have m: "map tsc (cores w') = [150, 150, 150, 150]"
    using c l by (auto simp: list_eq_iff_nth_eq nth_Cons')
  have "\<exists>w'. syncAll False ?sched four_cores = Some (Synced, w') \<and>
         targetTSC w' = 150 \<and> map tsc (cores w') = [150, 150, 150, 150]"
    by (rule exI [of _ w']) (simp only: w' t m simp_thms)
  then show ?thesis using ne small by (simp only: simp_thms)
qed

section \<open>The orchestrator, run by one caller\<close>

lemma syncAll_cases:
  "syncAll timer_arg sched w =
     (if \<not> systemAwake w \<or> (\<not> timer_arg \<and> synchronised w) \<or> synchronising w
      then Some (Skipped, w)
      else map_option (\<lambda>w'. (Synced, round_end w')) (mp_rendezvous_no_intrs sched (round_start w)))"
  using syncAll_skip [of w timer_arg sched] syncAll_proceed [of w timer_arg sched]
  by auto

lemma round_start_synchronised [simp]:
  "round_start (w\<lparr>synchronised := b\<rparr>) = round_start w"
  by (simp add: round_start_def)


lemma frame_round_start [simp]:
  "systemAwake (round_start w) = systemAwake w"
  "threadCount (round_start w) = threadCount w"
  "timer (round_start w) = timer w"
  "calls (round_start w) = calls w"
  "cores (round_start w) = cores w"
  "threadsEngaged (round_start w) = 0"
  "targetTSC (round_start w) = 0"
  by (simp_all add: round_start_def)

lemma frame_round_end [simp]:
  "systemAwake (round_end w) = systemAwake w"
  "synchronised (round_end w) = True"
  "synchronising (round_end w) = False"
  "threadCount (round_end w) = threadCount w"
  "timer (round_end w) = timer w"
  "calls (round_end w) = calls w"
  "cores (round_end w) = cores w"
  by (simp_all add: round_end_def)

lemma frame_syncAll:
  assumes "syncAll timer_arg sched w = Some (r, w')"
  shows "systemAwake w' = systemAwake w" "threadCount w' = threadCount w"
    "timer w' = timer w" "calls w' = calls w" "length (cores w') = length (cores w)"
  using assms
  by (auto simp: syncAll_cases rendezvous_Some split: if_splits)

lemma syncAll_can_return:
  assumes "length (cores w) = unat (threadCount w)"
  shows "\<exists>sched. syncAll timer_arg sched w \<noteq> None"
proof (cases "\<not> systemAwake w \<or> (\<not> timer_arg \<and> synchronised w) \<or> synchronising w")
  case True
  then show ?thesis by (simp add: syncAll_skip)
next
  case False
  have "barrier_inv (enter_sync (round_start w))"
    by (rule barrier_inv_enter_sync) simp
  moreover have "length (cores (enter_sync (round_start w))) =
      unat (threadCount (enter_sync (round_start w)))"
    using assms by simp
  ultimately obtain more where "all_done (run more (enter_sync (round_start w)))"
    using round_can_finish by blast
  then have "syncAll timer_arg more w \<noteq> None"
    using False by (simp add: syncAll_cases rendezvous_Some)
  then show ?thesis by blast
qed

lemma syncAll_marks_valid:
  assumes "syncAll False sched w = Some (r, w')" and "systemAwake w" and "\<not> synchronising w"
  shows "synchronised w'"
  using assms by (auto simp: syncAll_cases split: if_splits)

lemma frame_timer_ops [simp]:
  "systemAwake (startTimer w) = systemAwake w" "synchronised (startTimer w) = synchronised w"
  "synchronising (startTimer w) = synchronising w" "calls (startTimer w) = calls w"
  "cores (startTimer w) = cores w" "threadCount (startTimer w) = threadCount w"
  "systemAwake (stopTimer w) = systemAwake w" "synchronised (stopTimer w) = synchronised w"
  "synchronising (stopTimer w) = synchronising w" "calls (stopTimer w) = calls w"
  "cores (stopTimer w) = cores w" "threadCount (stopTimer w) = threadCount w"
  "targetTSC (startTimer w) = targetTSC w" "threadsEngaged (startTimer w) = threadsEngaged w"
  "targetTSC (stopTimer w) = targetTSC w" "threadsEngaged (stopTimer w) = threadsEngaged w"
  by (simp_all add: startTimer_def stopTimer_def split: option.splits)

lemma frame_call_original [simp]:
  "systemAwake (call_original c w) = systemAwake w"
  "synchronised (call_original c w) = synchronised w"
  "synchronising (call_original c w) = synchronising w"
  "timer (call_original c w) = timer w"
  "cores (call_original c w) = cores w"
  "threadCount (call_original c w) = threadCount w"
  "targetTSC (call_original c w) = targetTSC w"
  "threadsEngaged (call_original c w) = threadsEngaged w"
  "calls (call_original c w) = calls w @ [c]"
  by (simp_all add: call_original_def)

lemma timer_startTimer:
  "timer (startTimer w) =
     map_option (\<lambda>t. t\<lparr>enabled := True, timeout := Some PERIODIC_SYNC_INTERVAL\<rparr>) (timer w)"
  by (simp add: startTimer_def split: option.splits)

lemma timer_stopTimer:
  "timer (stopTimer w) = map_option (\<lambda>t. t\<lparr>timeout := None, enabled := False\<rparr>) (timer w)"
  by (simp add: stopTimer_def split: option.splits)

lemma trace_points_differ:
  "kIOPMTracePointWakePlatformActions \<noteq> kIOPMTracePointSleepCPUs"
  by (simp add: kIOPMTracePointWakePlatformActions_def kIOPMTracePointSleepCPUs_def)

lemma wrapTracePoint_sleep:
  "wrapTracePoint that kIOPMTracePointSleepCPUs sched w = Some (after_sleep that w)"
  by (simp add: wrapTracePoint_def after_sleep_def)

lemma wrapTracePoint_wake:
  "wrapTracePoint that kIOPMTracePointWakePlatformActions sched w =
     map_option (\<lambda>(r, w'). call_original (TracePoint that kIOPMTracePointWakePlatformActions)
                   (startTimer w'))
       (syncAll False sched (w\<lparr>systemAwake := True\<rparr>))"
  by (simp add: wrapTracePoint_def trace_points_differ syncAll_default_def split: option.splits)


lemma guard_steps_write_nothing:
  "(kpc (callers s ! i) = L89 \<or> kpc (callers s ! i) = L90 \<longrightarrow>
      machine (call_step sched i s) = machine s) \<and>
   (i < length (callers s) \<and> kpc (callers s ! i) = L89 \<and> \<not> systemAwake (machine s) \<longrightarrow>
      kpc (callers (call_step sched i s) ! i) = Returned Skipped) \<and>
   (i < length (callers s) \<and> kpc (callers s ! i) = L90 \<and> \<not> is_timer (callers s ! i) \<and>
      synchronised (machine s) \<longrightarrow>
      kpc (callers (call_step sched i s) ! i) = Returned Skipped)"
  by (auto simp: call_step_def set_pc_def)

lemma exchange_claims_gate:
  "i < length (callers s) \<Longrightarrow> kpc (callers s ! i) = L91 \<Longrightarrow>
   machine (call_step sched i s) = (machine s)\<lparr>synchronising := True\<rparr> \<and>
   kpc (callers (call_step sched i s) ! i) =
     (if synchronising (machine s) then Returned Skipped else L95)"
  by (simp add: call_step_def set_pc_def atomic_exchange_synchronising_def)

lemma rendezvous_step:
  "i < length (callers s) \<Longrightarrow> kpc (callers s ! i) = L102 \<Longrightarrow>
   mp_rendezvous_no_intrs sched (machine s) = Some r \<Longrightarrow>
   machine (call_step sched i s) = r \<and> kpc (callers (call_step sched i s) ! i) = L104"
  by (simp add: call_step_def set_pc_def)

text \<open>
  Claim C2. \<^verbatim>\<open>syncAll\<close> takes the early return, leaving the state as it was and
  starting no round, exactly when the system is not awake, or the call is non-periodic and
  \<^verbatim>\<open>synchronised\<close> is set, or the gate \<^verbatim>\<open>synchronising\<close> is already held. A call that
  none of the three turns away has claimed the gate, marked the counters invalid, reset
  \<^verbatim>\<open>threadsEngaged\<close> and \<^verbatim>\<open>targetTSC\<close> and started the rendezvous on that state; it
  returns exactly when the rendezvous does, with the gate released and the counters marked
  valid on the state the rendezvous left. The exchange returns the old value of the gate
  and leaves the gate set, in one step. So a non-periodic call does nothing whenever
  \<^verbatim>\<open>synchronised\<close> is set, while a periodic call on an awake system with a free gate
  never takes the early return and does the same whatever \<^verbatim>\<open>synchronised\<close> is. Step by
  step, the caller at line 91 sets the gate and goes on to line 95 exactly when it found
  the gate free, and the caller at line 102 moves on with the state the rendezvous left.
\<close>

theorem syncAll_guards:
  "((\<exists>w'. syncAll timer_arg sched w = Some (Skipped, w')) \<longleftrightarrow>
      (\<not> systemAwake w \<or> (\<not> timer_arg \<and> synchronised w) \<or> synchronising w)) \<and>
   ((\<not> systemAwake w \<or> (\<not> timer_arg \<and> synchronised w) \<or> synchronising w) \<longrightarrow>
      syncAll timer_arg sched w = Some (Skipped, w)) \<and>
   (systemAwake w \<and> (timer_arg \<or> \<not> synchronised w) \<and> \<not> synchronising w \<longrightarrow>
      syncAll timer_arg sched w =
        map_option (\<lambda>r. (Synced, r\<lparr>synchronising := False, synchronised := True\<rparr>))
          (mp_rendezvous_no_intrs sched
             (w\<lparr>synchronising := True, synchronised := False, threadsEngaged := 0,
                targetTSC := 0\<rparr>))) \<and>
   (\<forall>w'. syncAll timer_arg sched w = Some (Synced, w') \<longleftrightarrow>
      systemAwake w \<and> (timer_arg \<or> \<not> synchronised w) \<and> \<not> synchronising w \<and>
      all_done (run sched (enter_sync
        (w\<lparr>synchronising := True, synchronised := False, threadsEngaged := 0,
           targetTSC := 0\<rparr>))) \<and>
      w' = (run sched (enter_sync
        (w\<lparr>synchronising := True, synchronised := False, threadsEngaged := 0,
           targetTSC := 0\<rparr>)))\<lparr>synchronising := False, synchronised := True\<rparr>) \<and>
   atomic_exchange_synchronising True w = (synchronising w, w\<lparr>synchronising := True\<rparr>) \<and>
   (synchronised w \<longrightarrow> syncAll False sched w = Some (Skipped, w)) \<and>
   (systemAwake w \<and> \<not> synchronising w \<longrightarrow>
      (\<forall>w'. syncAll True sched w \<noteq> Some (Skipped, w')) \<and>
      (\<forall>b. syncAll True sched (w\<lparr>synchronised := b\<rparr>) = syncAll True sched w)) \<and>
   (\<forall>s i sched'. i < length (callers s) \<and> kpc (callers s ! i) = L91 \<longrightarrow>
      machine (call_step sched' i s) = (machine s)\<lparr>synchronising := True\<rparr> \<and>
      kpc (callers (call_step sched' i s) ! i) =
        (if synchronising (machine s) then Returned Skipped else L95)) \<and>
   (\<forall>s i sched' r. i < length (callers s) \<and> kpc (callers s ! i) = L102 \<and>
      mp_rendezvous_no_intrs sched' (machine s) = Some r \<longrightarrow>
      machine (call_step sched' i s) = r \<and> kpc (callers (call_step sched' i s) ! i) = L104)"
proof -
  let ?G = "\<not> systemAwake w \<or> (\<not> timer_arg \<and> synchronised w) \<or> synchronising w"
  have a: "(\<exists>w'. syncAll timer_arg sched w = Some (Skipped, w')) \<longleftrightarrow> ?G"
    by (auto simp: syncAll_cases)
  have b: "?G \<longrightarrow> syncAll timer_arg sched w = Some (Skipped, w)"
    by (simp add: syncAll_skip)
  have c: "systemAwake w \<and> (timer_arg \<or> \<not> synchronised w) \<and> \<not> synchronising w \<longrightarrow>
      syncAll timer_arg sched w =
        map_option (\<lambda>r. (Synced, r\<lparr>synchronising := False, synchronised := True\<rparr>))
          (mp_rendezvous_no_intrs sched
             (w\<lparr>synchronising := True, synchronised := False, threadsEngaged := 0,
                targetTSC := 0\<rparr>))"
    using syncAll_proceed [of w timer_arg sched] by (simp add: round_start_def round_end_def)
  have d: "syncAll timer_arg sched w = Some (Synced, w') \<longleftrightarrow>
      systemAwake w \<and> (timer_arg \<or> \<not> synchronised w) \<and> \<not> synchronising w \<and>
      all_done (run sched (enter_sync
        (w\<lparr>synchronising := True, synchronised := False, threadsEngaged := 0,
           targetTSC := 0\<rparr>))) \<and>
      w' = (run sched (enter_sync
        (w\<lparr>synchronising := True, synchronised := False, threadsEngaged := 0,
           targetTSC := 0\<rparr>)))\<lparr>synchronising := False, synchronised := True\<rparr>" for w'
    using syncAll_Synced [of timer_arg sched w w'] by (simp add: round_start_def round_end_def)
  have e: "atomic_exchange_synchronising True w = (synchronising w, w\<lparr>synchronising := True\<rparr>)"
    by (simp add: atomic_exchange_synchronising_def)
  have f: "synchronised w \<longrightarrow> syncAll False sched w = Some (Skipped, w)"
    by (simp add: syncAll_skip)
  have g: "systemAwake w \<and> \<not> synchronising w \<longrightarrow>
      (\<forall>w'. syncAll True sched w \<noteq> Some (Skipped, w')) \<and>
      (\<forall>b. syncAll True sched (w\<lparr>synchronised := b\<rparr>) = syncAll True sched w)"
    by (auto simp: syncAll_cases)
  show ?thesis
    using a b c d e f g exchange_claims_gate rendezvous_step by (intro conjI allI impI) blast+
qed

theorem syncAll_guards_witness:
  "syncAll False [0, 1, 2, 3] (four_cores\<lparr>synchronised := True\<rparr>) =
     Some (Skipped, four_cores\<lparr>synchronised := True\<rparr>) \<and>
   syncAll True [] (four_cores\<lparr>synchronising := True\<rparr>) =
     Some (Skipped, four_cores\<lparr>synchronising := True\<rparr>) \<and>
   atomic_exchange_synchronising True four_cores = (False, four_cores\<lparr>synchronising := True\<rparr>) \<and>
   (\<exists>w'. syncAll True [3, 1, 0, 2, 2, 0, 1, 3, 0, 0, 3, 2, 1, 2, 0, 3, 1, 1, 3, 0, 2]
           (four_cores\<lparr>synchronised := True\<rparr>) = Some (Synced, w') \<and>
         map tsc (cores w') = [150, 150, 150, 150] \<and> map cpc (cores w') =
           [Finished, Finished, Finished, Finished] \<and>
         threadsEngaged w' = 4 \<and> targetTSC w' = 150 \<and> synchronised w' \<and>
         \<not> synchronising w')"
proof -
  let ?sched = "[3, 1, 0, 2, 2, 0, 1, 3, 0, 0, 3, 2, 1, 2, 0, 3, 1, 1, 3, 0, 2] :: nat list"
  let ?v = "four_cores\<lparr>synchronised := True\<rparr>"
  let ?r = "run ?sched (enter_sync
      (?v\<lparr>synchronising := True, synchronised := False, threadsEngaged := 0, targetTSC := 0\<rparr>))"
  note g1 = syncAll_guards [of False "[0, 1, 2, 3]" ?v]
  note g2 = syncAll_guards [of True "[]" "four_cores\<lparr>synchronising := True\<rparr>"]
  note g3 = syncAll_guards [of True ?sched four_cores]
  note g4 = syncAll_guards [of True ?sched ?v]
  have a: "syncAll False [0, 1, 2, 3] ?v = Some (Skipped, ?v)"
    using g1 by (simp add: four_cores_def)
  have b: "syncAll True [] (four_cores\<lparr>synchronising := True\<rparr>) =
     Some (Skipped, four_cores\<lparr>synchronising := True\<rparr>)"
    using g2 by (simp add: four_cores_def)
  have c: "atomic_exchange_synchronising True four_cores =
      (False, four_cores\<lparr>synchronising := True\<rparr>)"
    using g3 by (simp add: four_cores_def)
  have fin: "all_done ?r"
    by (simp add: four_cores_def round_eval)
  have guards: "systemAwake ?v" "\<not> synchronising ?v"
    by (simp_all add: four_cores_def)
  have d: "syncAll True ?sched ?v = Some (Synced, ?r\<lparr>synchronising := False, synchronised := True\<rparr>)"
    using g4 fin guards by blast
  let ?x = "?r\<lparr>synchronising := False, synchronised := True\<rparr>"
  have e: "map tsc (cores ?x) = [150, 150, 150, 150]"
    "map cpc (cores ?x) = [Finished, Finished, Finished, Finished]"
    "threadsEngaged ?x = 4" "targetTSC ?x = 150" "synchronised ?x" "\<not> synchronising ?x"
    by (simp_all add: four_cores_def round_eval)
  have "\<exists>w'. syncAll True ?sched ?v = Some (Synced, w') \<and>
         map tsc (cores w') = [150, 150, 150, 150] \<and> map cpc (cores w') =
           [Finished, Finished, Finished, Finished] \<and>
         threadsEngaged w' = 4 \<and> targetTSC w' = 150 \<and> synchronised w' \<and>
         \<not> synchronising w'"
    by (rule exI [of _ ?x]) (simp only: d e simp_thms)
  then show ?thesis using a b c by (simp only: simp_thms)
qed

text \<open>
  Claim C10. When \<^verbatim>\<open>syncAll\<close> takes the early return, the whole state is the one it
  was called in: \<^verbatim>\<open>systemAwake\<close>, \<^verbatim>\<open>synchronised\<close>, \<^verbatim>\<open>threadsEngaged\<close>,
  \<^verbatim>\<open>targetTSC\<close> and the cores are untouched and the gate has its old value; when the
  first two guards let the call through, the exchange found the gate held and stored the
  value the gate already had. Step by step, the first two guards write nothing, whatever
  they decide, and a caller they turn away returns without reaching the exchange.
\<close>

theorem syncAll_early_return_frame:
  assumes "syncAll timer_arg sched w = Some (Skipped, w')"
  shows "w' = w \<and> systemAwake w' = systemAwake w \<and> synchronised w' = synchronised w \<and>
         synchronising w' = synchronising w \<and> threadsEngaged w' = threadsEngaged w \<and>
         targetTSC w' = targetTSC w \<and> cores w' = cores w \<and>
         (systemAwake w \<and> (timer_arg \<or> \<not> synchronised w) \<longrightarrow>
            atomic_exchange_synchronising True w = (True, w)) \<and>
         (\<forall>s i sched'.
            (kpc (callers s ! i) = L89 \<or> kpc (callers s ! i) = L90 \<longrightarrow>
               machine (call_step sched' i s) = machine s) \<and>
            (i < length (callers s) \<and> kpc (callers s ! i) = L89 \<and>
             \<not> systemAwake (machine s) \<longrightarrow>
               kpc (callers (call_step sched' i s) ! i) = Returned Skipped) \<and>
            (i < length (callers s) \<and> kpc (callers s ! i) = L90 \<and>
             \<not> is_timer (callers s ! i) \<and> synchronised (machine s) \<longrightarrow>
               kpc (callers (call_step sched' i s) ! i) = Returned Skipped))"
proof -
  have g: "\<not> systemAwake w \<or> (\<not> timer_arg \<and> synchronised w) \<or> synchronising w"
    using assms by (auto simp: syncAll_cases split: if_splits)
  then have "w' = w" using assms by (simp add: syncAll_skip)
  moreover have "atomic_exchange_synchronising True w = (True, w)"
    if "systemAwake w" "timer_arg \<or> \<not> synchronised w"
    using g that by (cases w) (auto simp: atomic_exchange_synchronising_def)
  ultimately show ?thesis using guard_steps_write_nothing by simp
qed

theorem syncAll_early_return_frame_witness:
  "syncAll True [] (four_cores\<lparr>synchronising := True\<rparr>) =
     Some (Skipped, four_cores\<lparr>synchronising := True\<rparr>) \<and>
   atomic_exchange_synchronising True (four_cores\<lparr>synchronising := True\<rparr>) =
     (True, four_cores\<lparr>synchronising := True\<rparr>)"
proof -
  have "syncAll True [] (four_cores\<lparr>synchronising := True\<rparr>) =
     Some (Skipped, four_cores\<lparr>synchronising := True\<rparr>)"
    by (simp add: syncAll_def atomic_exchange_synchronising_def four_cores_def)
  from syncAll_early_return_frame [OF this] this show ?thesis
    by (simp add: four_cores_def)
qed

section \<open>The hooks\<close>

text \<open>
  Claim C7. The urgency wrapper calls the original routine, with the arguments it
  received, if and only if \<^verbatim>\<open>synchronised\<close> is set when it is called; otherwise it
  does nothing at all.
\<close>

theorem wrapXcpmUrgency_forwards_iff:
  "((calls (wrapXcpmUrgency urgency rtPeriod rtDeadline w) =
       calls w @ [XcpmUrgency urgency rtPeriod rtDeadline]) \<longleftrightarrow> synchronised w) \<and>
   (synchronised w \<longrightarrow>
      wrapXcpmUrgency urgency rtPeriod rtDeadline w =
        w\<lparr>calls := calls w @ [XcpmUrgency urgency rtPeriod rtDeadline]\<rparr>) \<and>
   (\<not> synchronised w \<longrightarrow> wrapXcpmUrgency urgency rtPeriod rtDeadline w = w)"
  by (simp add: wrapXcpmUrgency_def call_original_def)

theorem wrapXcpmUrgency_forwards_iff_witness:
  "synchronised (four_cores\<lparr>synchronised := True\<rparr>) \<and>
   calls (wrapXcpmUrgency 1 2 3 (four_cores\<lparr>synchronised := True\<rparr>)) = [XcpmUrgency 1 2 3] \<and>
   wrapXcpmUrgency 1 2 3 four_cores = four_cores"
  using wrapXcpmUrgency_forwards_iff [of 1 2 3 "four_cores\<lparr>synchronised := True\<rparr>"]
    wrapXcpmUrgency_forwards_iff [of 1 2 3 four_cores]
  by (simp add: four_cores_def)

lemma frame_syncAll_calls:
  "syncAll timer_arg sched w = Some (r, w') \<Longrightarrow> calls w' = calls w"
  by (rule frame_syncAll(4))

lemma wrapXcpmUrgency_is_org:
  "wrapXcpmUrgency urgency rtPeriod rtDeadline w =
     (let (w', k) = wrapXcpmUrgency_org (\<lambda>u p d v k. k @ [XcpmUrgency u p d])
                      urgency rtPeriod rtDeadline w (calls w)
      in w'\<lparr>calls := k\<rparr>)"
  by (simp add: wrapXcpmUrgency_def wrapXcpmUrgency_org_def call_original_def)

lemma wrapClockGetCalendarMicrotime_is_org:
  "wrapClockGetCalendarMicrotime secs microsecs sched w =
     map_option (\<lambda>(w', k). w'\<lparr>calls := k\<rparr>)
       (wrapClockGetCalendarMicrotime_org (\<lambda>a b v k. k @ [ClockGetCalendarMicrotime a b])
          secs microsecs sched w (calls w))"
proof (cases "syncAll syncAll_default sched w")
  case None
  then show ?thesis
    by (simp add: wrapClockGetCalendarMicrotime_def wrapClockGetCalendarMicrotime_org_def)
next
  case (Some p)
  obtain r w' where p: "p = (r, w')" by (cases p)
  have "calls w' = calls w" using Some p by (simp add: frame_syncAll(4))
  then show ?thesis using Some p
    by (simp add: wrapClockGetCalendarMicrotime_def wrapClockGetCalendarMicrotime_org_def
        call_original_def)
qed

lemma wrapTracePoint_is_org:
  "wrapTracePoint that point sched w =
     map_option (\<lambda>(w', k). w'\<lparr>calls := k\<rparr>)
       (wrapTracePoint_org (\<lambda>a b v k. k @ [TracePoint a b]) that point sched w (calls w))"
proof (cases "point = kIOPMTracePointWakePlatformActions")
  case False
  then show ?thesis
    by (simp add: wrapTracePoint_def wrapTracePoint_org_def call_original_def Let_def)
next
  case True
  show ?thesis
  proof (cases "syncAll syncAll_default sched (w\<lparr>systemAwake := True\<rparr>)")
    case None
    then show ?thesis using True
      by (simp add: wrapTracePoint_def wrapTracePoint_org_def trace_points_differ)
  next
    case (Some p)
    obtain r w' where p: "p = (r, w')" by (cases p)
    have "calls w' = calls w" using Some p frame_syncAll(4) [of syncAll_default sched "w\<lparr>systemAwake := True\<rparr>" r w'] by simp
    then show ?thesis using Some p True
      by (simp add: wrapTracePoint_def wrapTracePoint_org_def trace_points_differ
          call_original_def)
  qed
qed

text \<open>
  Claim C8, as amended. The clock wrapper and the trace-point wrapper call the original
  routine once, last, with the arguments they received, on the state their side effect
  has left: the clock wrapper after \<^verbatim>\<open>syncAll\<close>, the trace-point wrapper after the
  flags are cleared and the timer stopped on the sleep point, after \<^verbatim>\<open>syncAll\<close> and the
  restart of the timer on the wake point, and on the unchanged state, with no side effect,
  on every other point. They return the original routine's result whenever the side effect
  returns, which it always does on points other than wake. The urgency wrapper calls the
  original routine, with its arguments and on the unchanged state, only when
  \<^verbatim>\<open>synchronised\<close> is set, and not at all otherwise. The original routines are
  arbitrary functions of their arguments, the state and their own state.
\<close>

theorem wrappers_pass_through:
  "wrapClockGetCalendarMicrotime_org orgClock secs microsecs sched w k =
     map_option (\<lambda>(r, w'). (w', orgClock secs microsecs w' k)) (syncAll False sched w) \<and>
   (systemAwake w \<and> \<not> synchronising w \<longrightarrow>
      (\<forall>w' k'. wrapClockGetCalendarMicrotime_org orgClock secs microsecs sched w k = Some (w', k')
         \<longrightarrow> synchronised w' \<and> k' = orgClock secs microsecs w' k)) \<and>
   wrapTracePoint_org orgTrace that kIOPMTracePointSleepCPUs sched w k =
     Some (stopTimer (w\<lparr>systemAwake := False, synchronised := False\<rparr>),
           orgTrace that kIOPMTracePointSleepCPUs
             (stopTimer (w\<lparr>systemAwake := False, synchronised := False\<rparr>)) k) \<and>
   wrapTracePoint_org orgTrace that kIOPMTracePointWakePlatformActions sched w k =
     map_option (\<lambda>(r, w'). (startTimer w',
                   orgTrace that kIOPMTracePointWakePlatformActions (startTimer w') k))
       (syncAll False sched (w\<lparr>systemAwake := True\<rparr>)) \<and>
   (point \<noteq> kIOPMTracePointSleepCPUs \<and> point \<noteq> kIOPMTracePointWakePlatformActions \<longrightarrow>
      wrapTracePoint_org orgTrace that point sched w k = Some (w, orgTrace that point w k)) \<and>
   wrapXcpmUrgency_org orgUrgency urgency rtPeriod rtDeadline w k =
     (if synchronised w then (w, orgUrgency urgency rtPeriod rtDeadline w k) else (w, k)) \<and>
   (\<forall>w'. wrapTracePoint that point sched w = Some w' \<longrightarrow>
           calls w' = calls w @ [TracePoint that point]) \<and>
   (point \<noteq> kIOPMTracePointWakePlatformActions \<longrightarrow>
      wrapTracePoint that point sched w \<noteq> None) \<and>
   (wrapTracePoint that kIOPMTracePointWakePlatformActions sched w \<noteq> None \<longleftrightarrow>
      syncAll False sched (w\<lparr>systemAwake := True\<rparr>) \<noteq> None) \<and>
   (\<forall>w'. wrapClockGetCalendarMicrotime secs microsecs sched w = Some w' \<longrightarrow>
           calls w' = calls w @ [ClockGetCalendarMicrotime secs microsecs]) \<and>
   (wrapClockGetCalendarMicrotime secs microsecs sched w \<noteq> None \<longleftrightarrow>
      syncAll False sched w \<noteq> None) \<and>
   calls (wrapXcpmUrgency urgency rtPeriod rtDeadline w) =
     (if synchronised w then calls w @ [XcpmUrgency urgency rtPeriod rtDeadline] else calls w)"
proof -
  have c1: "wrapClockGetCalendarMicrotime_org orgClock secs microsecs sched w k =
     map_option (\<lambda>(r, w'). (w', orgClock secs microsecs w' k)) (syncAll False sched w)"
    by (simp add: wrapClockGetCalendarMicrotime_org_def syncAll_default_def split: option.splits)
  have c2: "systemAwake w \<and> \<not> synchronising w \<longrightarrow>
      (\<forall>w' k'. wrapClockGetCalendarMicrotime_org orgClock secs microsecs sched w k = Some (w', k')
         \<longrightarrow> synchronised w' \<and> k' = orgClock secs microsecs w' k)"
    unfolding c1 using syncAll_marks_valid [of sched w] by auto
  have t1: "wrapTracePoint_org orgTrace that kIOPMTracePointSleepCPUs sched w k =
     Some (stopTimer (w\<lparr>systemAwake := False, synchronised := False\<rparr>),
           orgTrace that kIOPMTracePointSleepCPUs
             (stopTimer (w\<lparr>systemAwake := False, synchronised := False\<rparr>)) k)"
    by (simp add: wrapTracePoint_org_def Let_def)
  have t2: "wrapTracePoint_org orgTrace that kIOPMTracePointWakePlatformActions sched w k =
     map_option (\<lambda>(r, w'). (startTimer w',
                   orgTrace that kIOPMTracePointWakePlatformActions (startTimer w') k))
       (syncAll False sched (w\<lparr>systemAwake := True\<rparr>))"
    by (simp add: wrapTracePoint_org_def trace_points_differ syncAll_default_def
        split: option.splits)
  have t3: "point \<noteq> kIOPMTracePointSleepCPUs \<and> point \<noteq> kIOPMTracePointWakePlatformActions \<longrightarrow>
      wrapTracePoint_org orgTrace that point sched w k = Some (w, orgTrace that point w k)"
    by (simp add: wrapTracePoint_org_def)
  have u1: "wrapXcpmUrgency_org orgUrgency urgency rtPeriod rtDeadline w k =
     (if synchronised w then (w, orgUrgency urgency rtPeriod rtDeadline w k) else (w, k))"
    by (simp add: wrapXcpmUrgency_org_def)
  have tp: "calls w' = calls w @ [TracePoint that point]"
    if "wrapTracePoint that point sched w = Some w'" for w'
    using that frame_syncAll_calls [of syncAll_default sched "w\<lparr>systemAwake := True\<rparr>"]
    by (auto simp: wrapTracePoint_def split: if_splits option.splits)
  have tp_ret: "wrapTracePoint that point sched w \<noteq> None"
    if "point \<noteq> kIOPMTracePointWakePlatformActions"
    using that by (simp add: wrapTracePoint_def)
  have tp_wake: "wrapTracePoint that kIOPMTracePointWakePlatformActions sched w \<noteq> None \<longleftrightarrow>
      syncAll False sched (w\<lparr>systemAwake := True\<rparr>) \<noteq> None"
    by (auto simp: wrapTracePoint_wake)
  have ck: "calls w' = calls w @ [ClockGetCalendarMicrotime secs microsecs]"
    if "wrapClockGetCalendarMicrotime secs microsecs sched w = Some w'" for w'
    using that frame_syncAll_calls [of syncAll_default sched w]
    by (auto simp: wrapClockGetCalendarMicrotime_def split: option.splits)
  have ck_ret: "wrapClockGetCalendarMicrotime secs microsecs sched w \<noteq> None \<longleftrightarrow>
      syncAll False sched w \<noteq> None"
    by (auto simp: wrapClockGetCalendarMicrotime_def syncAll_default_def split: option.splits)
  have ur: "calls (wrapXcpmUrgency urgency rtPeriod rtDeadline w) =
     (if synchronised w then calls w @ [XcpmUrgency urgency rtPeriod rtDeadline] else calls w)"
    by (simp add: wrapXcpmUrgency_def)
  show ?thesis
    by (intro conjI allI impI) (use c1 c2 t1 t2 t3 u1 tp tp_ret tp_wake ck ck_ret ur in blast)+
qed

theorem wrappers_pass_through_witness:
  "(\<exists>w'. wrapClockGetCalendarMicrotime_org observe 8 9
           [3, 1, 0, 2, 2, 0, 1, 3, 0, 0, 3, 2, 1, 2, 0, 3, 1, 1, 3, 0, 2] four_cores [] =
           Some (w', [(8, 9, True, True, [150, 150, 150, 150])])) \<and>
   wrapTracePoint_org observe 7 5 [] four_cores [] =
     Some (four_cores, [(7, 5, True, False, [100, 150, 120, 140])]) \<and>
   map_option snd (wrapTracePoint_org observe 7 kIOPMTracePointSleepCPUs [] four_cores []) =
     Some [(7, kIOPMTracePointSleepCPUs, False, False, [100, 150, 120, 140])] \<and>
   wrapXcpmUrgency_org (\<lambda>u p d. observe u (p, d)) 1 2 3 four_cores [] = (four_cores, []) \<and>
   wrapXcpmUrgency_org (\<lambda>u p d. observe u (p, d)) 1 2 3 (four_cores\<lparr>synchronised := True\<rparr>) [] =
     (four_cores\<lparr>synchronised := True\<rparr>, [(1, (2, 3), True, True, [100, 150, 120, 140])])"
proof -
  let ?sched = "[3, 1, 0, 2, 2, 0, 1, 3, 0, 0, 3, 2, 1, 2, 0, 3, 1, 1, 3, 0, 2] :: nat list"
  let ?r = "run ?sched (enter_sync (round_start four_cores))"
  have fin: "all_done ?r"
    by (simp add: four_cores_def round_eval)
  have sa: "syncAll False ?sched four_cores = Some (Synced, round_end ?r)"
    using fin by (simp add: syncAll_Synced four_cores_def)
  have seen: "observe (8 :: 64 word) (9 :: 64 word) (round_end ?r) [] =
      [(8, 9, True, True, [150, 150, 150, 150])]"
    by (simp add: observe_def round_end_def four_cores_def round_eval)
  have a: "wrapClockGetCalendarMicrotime_org observe 8 9 ?sched four_cores [] =
      Some (round_end ?r, [(8, 9, True, True, [150, 150, 150, 150])])"
    using wrappers_pass_through [of observe 8 9 ?sched four_cores "[]"]
    by (simp only: sa seen option.map prod.case)
  have five: "(5 :: 8 word) \<noteq> kIOPMTracePointSleepCPUs \<and>
      (5 :: 8 word) \<noteq> kIOPMTracePointWakePlatformActions"
    by (simp add: kIOPMTracePointSleepCPUs_def kIOPMTracePointWakePlatformActions_def)
  have b: "wrapTracePoint_org observe 7 5 [] four_cores [] =
     Some (four_cores, [(7, 5, True, False, [100, 150, 120, 140])])"
    using wrappers_pass_through [where orgTrace = observe and that = 7 and point = 5
        and sched = "[]" and w = four_cores and k = "[]"] five
    by (simp add: observe_def four_cores_def)
  have c: "map_option snd (wrapTracePoint_org observe 7 kIOPMTracePointSleepCPUs [] four_cores []) =
     Some [(7, kIOPMTracePointSleepCPUs, False, False, [100, 150, 120, 140])]"
    using wrappers_pass_through [where orgTrace = observe and that = 7
        and sched = "[]" and w = four_cores and k = "[]"]
    by (simp add: observe_def four_cores_def stopTimer_def)
  have d: "wrapXcpmUrgency_org (\<lambda>u p d. observe u (p, d)) 1 2 3 four_cores [] = (four_cores, [])"
    "wrapXcpmUrgency_org (\<lambda>u p d. observe u (p, d)) 1 2 3 (four_cores\<lparr>synchronised := True\<rparr>) [] =
     (four_cores\<lparr>synchronised := True\<rparr>, [(1, (2, 3), True, True, [100, 150, 120, 140])])"
    by (simp_all add: wrapXcpmUrgency_org_def observe_def four_cores_def)
  have "\<exists>w'. wrapClockGetCalendarMicrotime_org observe 8 9 ?sched four_cores [] =
           Some (w', [(8, 9, True, True, [150, 150, 150, 150])])"
    using a by blast
  then show ?thesis using b c d by (simp only: simp_thms)
qed

text \<open>
  The claim as written fails for the urgency wrapper: with \<^verbatim>\<open>synchronised\<close> clear it
  returns without calling the original routine.
\<close>

theorem urgency_not_forwarded_counterexample:
  "\<not> synchronised four_cores \<and>
   calls (wrapXcpmUrgency 1 2 3 four_cores) \<noteq> calls four_cores @ [XcpmUrgency 1 2 3] \<and>
   calls (wrapXcpmUrgency 1 2 3 four_cores) = []"
  by (simp add: wrapXcpmUrgency_def four_cores_def)

section \<open>Facts about initialization\<close>

lemma threadCount_startTimer [simp]: "threadCount (startTimer w) = threadCount w"
  by (simp add: startTimer_def split: option.splits)

lemma threadCount_init:
  "threadCount (init hw w) =
     threadCount (fallback_detection hw
       (case cpuVendor (info hw) of AMD \<Rightarrow> detect_amd hw w | Intel \<Rightarrow> detect_intel hw w
        | Unknown \<Rightarrow> w))"
  by (simp add: init_def Let_def)

lemma fallback_zero:
  assumes "threadCount (fallback_detection hw w) = 0"
  shows "\<exists>eax ebx ecx edx. getCpuid hw 1 = Some (eax, ebx, ecx, edx) \<and>
           (push_bit 32 (ucast ecx :: 64 word) OR ucast edx) AND CPUID_FEATURE_HTT \<noteq> 0 \<and>
           drop_bit 16 ebx AND 0xFF = 0"
  using assms
  by (auto simp: fallback_detection_def Let_def split: if_splits option.splits)

lemma init_zero_only_by_fallback:
  assumes "threadCount (init hw w) = 0"
  shows "\<exists>eax ebx ecx edx. getCpuid hw 1 = Some (eax, ebx, ecx, edx) \<and>
           (push_bit 32 (ucast ecx :: 64 word) OR ucast edx) AND CPUID_FEATURE_HTT \<noteq> 0 \<and>
           drop_bit 16 ebx AND 0xFF = 0"
  using assms unfolding threadCount_init by (rule fallback_zero)

lemma init_no_information:
  assumes "cpuVendor (info hw) = Unknown" and "getCpuid hw 1 = None" and "threadCount w = 0"
  shows "threadCount (init hw w) = 1 \<and> amd17h (init hw w) = amd17h w \<and>
         tscAdjust (init hw w) = tscAdjust w"
  using assms
  by (simp add: init_def fallback_detection_def Let_def startTimer_def split: option.splits)

lemma init_without_any_probe:
  "threadCount (init no_probes at_boot) = 1 \<and> \<not> amd17h (init no_probes at_boot) \<and>
   \<not> tscAdjust (init no_probes at_boot) \<and> timer (init no_probes at_boot) = None"
  by (simp add: init_def fallback_detection_def no_probes_def at_boot_def startTimer_def)

text \<open>
  Claim C9. \<^verbatim>\<open>init\<close> is total, but the thread count it leaves is not always at
  least one: on a processor of unknown vendor whose leaf 1 sets the hyper-threading bit
  and reports zero logical processors, the fallback stores zero.
\<close>

theorem init_leaves_thread_count_zero:
  "threadCount at_boot = 0 \<and> threadCount (init htt_without_count at_boot) = 0"
  by (simp add: init_def fallback_detection_def htt_without_count_def at_boot_def Let_def
      startTimer_def CPUID_FEATURE_HTT_def getBit_def)

lemma zero_thread_count_never_returns:
  assumes "threadsEngaged w = 0" and "cores w \<noteq> []" and "length (cores w) < 2 ^ 32"
    and "threadCount w = 0"
  shows "mp_rendezvous_no_intrs sched w = None"
proof (rule ccontr)
  assume "mp_rendezvous_no_intrs sched w \<noteq> None"
  then have fin: "all_done (run sched (enter_sync w))"
    by (simp only: rendezvous_not_None)
  have "barrier_inv (run sched (enter_sync w))"
    using assms(1,3) by (simp add: barrier_inv_run barrier_inv_enter_sync)
  moreover have "cores (run sched (enter_sync w)) \<noteq> []"
    using assms(2) length_cores_run [of sched "enter_sync w"] by (auto simp del: length_cores_run)
  ultimately have "length (cores (run sched (enter_sync w))) =
      unat (threadCount (run sched (enter_sync w)))"
    using assms(3) fin by (intro all_done_accurate) simp_all
  then show False using assms(2,4) by simp
qed

section \<open>Concurrent callers: the gate\<close>

lemma length_callers_call_step [simp]:
  "length (callers (call_step sched i s)) = length (callers s)"
  by (simp add: call_step_def set_pc_def split: call_pc.splits option.splits)

lemma callers_call_step_other:
  "j \<noteq> i \<Longrightarrow> callers (call_step sched i s) ! j = callers s ! j"
  by (simp add: call_step_def set_pc_def split: call_pc.splits option.splits)

lemma synchronising_call_step:
  "synchronising (machine (call_step sched i s)) =
     (if i < length (callers s) \<and> kpc (callers s ! i) = L91 then True
      else if i < length (callers s) \<and> kpc (callers s ! i) = L104 then False
      else synchronising (machine s))"
  by (simp add: call_step_def set_pc_def atomic_exchange_synchronising_def rendezvous_Some
      split: call_pc.splits option.splits)

lemma holding_call_step_self:
  "i < length (callers s) \<Longrightarrow>
   holding (kpc (callers (call_step sched i s) ! i)) =
     (if kpc (callers s ! i) = L91 then \<not> synchronising (machine s)
      else if kpc (callers s ! i) = L104 then False
      else holding (kpc (callers s ! i)))"
  by (simp add: call_step_def set_pc_def atomic_exchange_synchronising_def holding_def
      split: call_pc.splits option.splits)

lemma gate_inv_step:
  assumes inv: "gate_inv s"
  shows "gate_inv (call_step sched i s)"
proof (cases "i < length (callers s)")
  case False
  then show ?thesis using inv by (simp add: call_step_def)
next
  case True
  let ?s' = "call_step sched i s"
  let ?H = "\<lambda>j. holding (kpc (callers s ! j))"
  let ?H' = "\<lambda>j. holding (kpc (callers ?s' ! j))"
  have uniq: "\<And>a b. a < length (callers s) \<Longrightarrow> b < length (callers s) \<Longrightarrow> ?H a \<Longrightarrow> ?H b \<Longrightarrow> a = b"
    and gate: "synchronising (machine s) = (\<exists>j < length (callers s). ?H j)"
    using inv by (auto simp: gate_inv_def)
  have other: "\<And>j. j \<noteq> i \<Longrightarrow> ?H' j = ?H j"
    by (simp add: callers_call_step_other)
  consider (claim) "kpc (callers s ! i) = L91" "\<not> synchronising (machine s)"
    | (refused) "kpc (callers s ! i) = L91" "synchronising (machine s)"
    | (release) "kpc (callers s ! i) = L104"
    | (inside) "kpc (callers s ! i) \<noteq> L91" "kpc (callers s ! i) \<noteq> L104"
    by blast
  then show ?thesis
  proof cases
    case claim
    then have none: "\<And>j. j < length (callers s) \<Longrightarrow> \<not> ?H j" using gate by blast
    have self: "?H' i" using claim True by (simp add: holding_call_step_self)
    have sync: "synchronising (machine ?s')"
      using claim True by (simp add: synchronising_call_step)
    have only: "j = i" if "j < length (callers s)" "?H' j" for j
      using other [of j] none [of j] that by (cases "j = i") auto
    show ?thesis unfolding gate_inv_def
      using self sync only True by (simp, blast)
  next
    case refused
    have "\<not> ?H' i"
      using refused True by (simp add: holding_call_step_self)
    moreover have "\<not> ?H i"
      using refused by (simp add: holding_def)
    ultimately have self: "?H' i = ?H i" by simp
    have sync: "synchronising (machine ?s') = synchronising (machine s)"
      using refused True by (simp add: synchronising_call_step)
    have same: "?H' j = ?H j" for j
      using other [of j] self by (cases "j = i") auto
    show ?thesis unfolding gate_inv_def using inv
      by (simp add: same sync gate_inv_def)
  next
    case release
    have was: "?H i" using release by (simp add: holding_def)
    have self: "\<not> ?H' i" using release True by (simp add: holding_call_step_self)
    have sync: "\<not> synchronising (machine ?s')"
      using release True by (simp add: synchronising_call_step)
    have none: "\<not> ?H' j" if "j < length (callers s)" for j
      using other [of j] self uniq [OF that True _ was] by (cases "j = i") auto
    show ?thesis unfolding gate_inv_def using sync none by auto
  next
    case inside
    have self: "?H' i = ?H i"
      using inside True by (simp add: holding_call_step_self)
    have sync: "synchronising (machine ?s') = synchronising (machine s)"
      using inside by (simp add: synchronising_call_step)
    have same: "?H' j = ?H j" for j
      using other [of j] self by (cases "j = i") auto
    show ?thesis unfolding gate_inv_def using inv
      by (simp add: same sync gate_inv_def)
  qed
qed

lemma gate_inv_call_run:
  "gate_inv s \<Longrightarrow> gate_inv (call_run es s)"
  by (induction es arbitrary: s) (auto simp: gate_inv_step)

lemma length_callers_call_run [simp]:
  "length (callers (call_run es s)) = length (callers s)"
  by (induction es arbitrary: s) auto

lemmas call_eval =
  call_step_def set_pc_def atomic_exchange_synchronising_def mp_rendezvous_no_intrs_def
  round_eval two_cores_def alternate_def

text \<open>
  Claim C3, as amended. From a state where the gate is free and no caller is inside, in
  every interleaving of the callers' atomic steps at most one caller is between its
  successful exchange and its release of the gate, so at most one round is in progress;
  \<^verbatim>\<open>synchronising\<close> is set exactly while some caller is there; a caller whose
  exchange finds the gate held returns without a round and without changing the state;
  and a caller whose exchange finds the gate free takes it. How many of the callers
  perform a round is not fixed by the gate.
\<close>

theorem gate_mutual_exclusion:
  assumes "\<not> synchronising (machine s)" and "\<forall>c \<in> set (callers s). \<not> holding (kpc c)"
  shows "(\<forall>i < length (callers s). \<forall>j < length (callers s).
            holding (kpc (callers (call_run es s) ! i)) \<and>
            holding (kpc (callers (call_run es s) ! j)) \<longrightarrow> i = j) \<and>
         (synchronising (machine (call_run es s)) \<longleftrightarrow>
            (\<exists>i < length (callers s). holding (kpc (callers (call_run es s) ! i)))) \<and>
         (\<forall>i < length (callers s). \<forall>sched.
            kpc (callers (call_run es s) ! i) = L91 \<and> synchronising (machine (call_run es s)) \<longrightarrow>
            machine (call_step sched i (call_run es s)) = machine (call_run es s) \<and>
            kpc (callers (call_step sched i (call_run es s)) ! i) = Returned Skipped) \<and>
         (\<forall>i < length (callers s). \<forall>sched.
            kpc (callers (call_run es s) ! i) = L91 \<and>
            \<not> synchronising (machine (call_run es s)) \<longrightarrow>
            synchronising (machine (call_step sched i (call_run es s))) \<and>
            kpc (callers (call_step sched i (call_run es s)) ! i) = L95)"
proof -
  have "gate_inv s"
    using assms by (auto simp: gate_inv_def)
  then have "gate_inv (call_run es s)" by (rule gate_inv_call_run)
  then have excl: "\<forall>i < length (callers s). \<forall>j < length (callers s).
            holding (kpc (callers (call_run es s) ! i)) \<and>
            holding (kpc (callers (call_run es s) ! j)) \<longrightarrow> i = j"
    and flag: "synchronising (machine (call_run es s)) \<longleftrightarrow>
            (\<exists>i < length (callers s). holding (kpc (callers (call_run es s) ! i)))"
    by (simp_all add: gate_inv_def)
  have refused: "machine (call_step sched i r) = machine r \<and>
      kpc (callers (call_step sched i r) ! i) = Returned Skipped"
    if "i < length (callers r)" "kpc (callers r ! i) = L91" "synchronising (machine r)"
    for sched i r
    using that
    by (cases "machine r") (simp add: call_step_def set_pc_def atomic_exchange_synchronising_def)
  have claimed: "synchronising (machine (call_step sched i r)) \<and>
      kpc (callers (call_step sched i r) ! i) = L95"
    if "i < length (callers r)" "kpc (callers r ! i) = L91" "\<not> synchronising (machine r)"
    for sched i r
    using that by (simp add: call_step_def set_pc_def atomic_exchange_synchronising_def)
  show ?thesis
    using excl flag refused [of _ "call_run es s"] claimed [of _ "call_run es s"] by simp
qed

theorem gate_mutual_exclusion_witness:
  "\<not> synchronising (machine two_periodic) \<and>
   map kpc (callers two_periodic) = [L89, L89] \<and>
   map kpc (callers (call_run both_at_the_gate two_periodic)) = [L95, Returned Skipped] \<and>
   synchronising (machine (call_run both_at_the_gate two_periodic))"
proof -
  have a: "\<not> synchronising (machine two_periodic)"
    and b: "\<forall>c \<in> set (callers two_periodic). \<not> holding (kpc c)"
    and c: "map kpc (callers two_periodic) = [L89, L89]"
    by (simp_all add: two_periodic_def two_cores_def holding_def)
  have d: "map kpc (callers (call_run both_at_the_gate two_periodic)) = [L95, Returned Skipped]"
    by (simp add: both_at_the_gate_def two_periodic_def call_eval)
  then have "kpc (callers (call_run both_at_the_gate two_periodic) ! 0) = L95"
    by (metis nth_Cons_0 nth_map length_map length_Cons zero_less_Suc)
  then have "\<exists>i < length (callers two_periodic).
      holding (kpc (callers (call_run both_at_the_gate two_periodic) ! i))"
    by (intro exI [of _ 0]) (simp add: holding_def two_periodic_def)
  then have "synchronising (machine (call_run both_at_the_gate two_periodic))"
    using gate_mutual_exclusion [OF a b, of both_at_the_gate] by blast
  then show ?thesis using a c d by (simp only: simp_thms)
qed

text \<open>
  Two timer callbacks that entered \<^verbatim>\<open>syncAll\<close> together, the second reaching the
  gate after the first has released it: both perform a round.
\<close>

theorem two_rounds_counterexample:
  "map kpc (callers two_periodic) = [L89, L89] \<and>
   map kpc (callers (call_run one_after_the_other two_periodic)) =
     [Returned Synced, Returned Synced]"
  by (simp add: one_after_the_other_def two_periodic_def call_eval)

text \<open>
  Claim C4. One caller alone keeps \<^verbatim>\<open>synchronised\<close> false from line 95 until it
  has released the gate (\<open>single_caller_invalid_during_round\<close> below). With two callers
  the order of lines 104 and 105 breaks this: the first caller releases the gate, the
  second takes it and marks the counters invalid, and then the first caller's store of
  line 105 marks them valid while the second caller's round is in progress; the urgency
  wrapper then forwards.
\<close>

theorem valid_flag_set_inside_round:
  "map kpc (callers timer_and_clock) = [L89, L89] \<and>
   map kpc (callers (call_run late_store timer_and_clock)) = [Returned Synced, L98] \<and>
   synchronising (machine (call_run late_store timer_and_clock)) \<and>
   synchronised (machine (call_run late_store timer_and_clock)) \<and>
   calls (wrapXcpmUrgency 1 2 3 (machine (call_run late_store timer_and_clock))) =
     [XcpmUrgency 1 2 3] \<and>
   map kpc (callers (call_run (late_store @ [(1, []), (1, [])]) timer_and_clock)) =
     [Returned Synced, L102] \<and>
   synchronised (machine (call_run (late_store @ [(1, []), (1, [])]) timer_and_clock))"
  by (simp add: late_store_def timer_and_clock_def call_eval wrapXcpmUrgency_def
      call_original_def)

lemma synchronised_call_step:
  "synchronised (machine (call_step sched i s)) =
     (if i < length (callers s) \<and> kpc (callers s ! i) = L95 then False
      else if i < length (callers s) \<and> kpc (callers s ! i) = L105 then True
      else synchronised (machine s))"
  by (simp add: call_step_def set_pc_def atomic_exchange_synchronising_def rendezvous_Some
      split: call_pc.splits option.splits)

lemma past_L95_call_step_self:
  "i < length (callers s) \<Longrightarrow>
   past_L95 (kpc (callers (call_step sched i s) ! i)) =
     (if kpc (callers s ! i) = L95 then True
      else if kpc (callers s ! i) = L104 then False
      else past_L95 (kpc (callers s ! i)))"
  by (simp add: call_step_def set_pc_def atomic_exchange_synchronising_def past_L95_def
      split: call_pc.splits option.splits)

lemma single_caller_step:
  assumes "length (callers s) = 1"
    and "past_L95 (kpc (callers s ! 0)) \<longrightarrow> \<not> synchronised (machine s)"
  shows "past_L95 (kpc (callers (call_step sched i s) ! 0)) \<longrightarrow>
         \<not> synchronised (machine (call_step sched i s))"
proof (cases "i = 0")
  case True
  have "0 < length (callers s)" using assms(1) by simp
  note a = past_L95_call_step_self [OF this, of sched] and b = synchronised_call_step [of sched 0 s]
  show ?thesis
    using assms a b unfolding True
    by (cases "kpc (callers s ! 0)") (simp_all add: past_L95_def)
next
  case False
  then show ?thesis using assms by (simp add: call_step_def)
qed

lemma single_caller_invalid_during_round:
  assumes "length (callers s) = 1"
    and "past_L95 (kpc (callers s ! 0)) \<longrightarrow> \<not> synchronised (machine s)"
  shows "past_L95 (kpc (callers (call_run es s) ! 0)) \<longrightarrow>
         \<not> synchronised (machine (call_run es s))"
  using assms
proof (induction es arbitrary: s)
  case Nil
  then show ?case by simp
next
  case (Cons e es)
  obtain i sched where e: "e = (i, sched)" by (cases e)
  have "length (callers (call_step sched i s)) = 1" using Cons.prems(1) by simp
  moreover have "past_L95 (kpc (callers (call_step sched i s) ! 0)) \<longrightarrow>
      \<not> synchronised (machine (call_step sched i s))"
    using Cons.prems by (rule single_caller_step)
  ultimately show ?case using Cons.IH [of "call_step sched i s"] by (simp add: e)
qed

text \<open>
  One caller stepping through \<^verbatim>\<open>syncAll\<close> alone does what the function
  \<open>syncAll\<close> above computes; when the cores' schedule does not complete the round,
  the caller stays at the rendezvous.
\<close>

lemma call_step_single:
  "call_step sched 0 \<lparr>machine = w, callers = [\<lparr>kpc = p, is_timer = t\<rparr>]\<rparr> =
     (case p of
        L89 \<Rightarrow> \<lparr>machine = w,
                callers = [\<lparr>kpc = (if \<not> systemAwake w then Returned Skipped else L90),
                            is_timer = t\<rparr>]\<rparr>
      | L90 \<Rightarrow> \<lparr>machine = w,
                callers = [\<lparr>kpc = (if \<not> t \<and> synchronised w then Returned Skipped else L91),
                            is_timer = t\<rparr>]\<rparr>
      | L91 \<Rightarrow> \<lparr>machine = w\<lparr>synchronising := True\<rparr>,
                callers = [\<lparr>kpc = (if synchronising w then Returned Skipped else L95),
                            is_timer = t\<rparr>]\<rparr>
      | L95 \<Rightarrow> \<lparr>machine = w\<lparr>synchronised := False\<rparr>, callers = [\<lparr>kpc = L98, is_timer = t\<rparr>]\<rparr>
      | L98 \<Rightarrow> \<lparr>machine = w\<lparr>threadsEngaged := 0\<rparr>, callers = [\<lparr>kpc = L99, is_timer = t\<rparr>]\<rparr>
      | L99 \<Rightarrow> \<lparr>machine = w\<lparr>targetTSC := 0\<rparr>, callers = [\<lparr>kpc = L102, is_timer = t\<rparr>]\<rparr>
      | L102 \<Rightarrow>
          (case mp_rendezvous_no_intrs sched w of
             None \<Rightarrow> \<lparr>machine = w, callers = [\<lparr>kpc = L102, is_timer = t\<rparr>]\<rparr>
           | Some w' \<Rightarrow> \<lparr>machine = w', callers = [\<lparr>kpc = L104, is_timer = t\<rparr>]\<rparr>)
      | L104 \<Rightarrow> \<lparr>machine = w\<lparr>synchronising := False\<rparr>,
                 callers = [\<lparr>kpc = L105, is_timer = t\<rparr>]\<rparr>
      | L105 \<Rightarrow> \<lparr>machine = w\<lparr>synchronised := True\<rparr>,
                 callers = [\<lparr>kpc = Returned Synced, is_timer = t\<rparr>]\<rparr>
      | Returned r \<Rightarrow> \<lparr>machine = w, callers = [\<lparr>kpc = Returned r, is_timer = t\<rparr>]\<rparr>)"
  by (simp add: call_step_def set_pc_def atomic_exchange_synchronising_def
      split: call_pc.splits option.splits)

lemma single_caller_agrees:
  "call_run [(0, sched), (0, sched), (0, sched), (0, sched), (0, sched), (0, sched),
             (0, sched), (0, sched), (0, sched)]
     \<lparr>machine = w, callers = [\<lparr>kpc = L89, is_timer = t\<rparr>]\<rparr> =
   (case syncAll t sched w of
      Some (r, w') \<Rightarrow> \<lparr>machine = w', callers = [\<lparr>kpc = Returned r, is_timer = t\<rparr>]\<rparr>
    | None \<Rightarrow> \<lparr>machine = round_start w, callers = [\<lparr>kpc = L102, is_timer = t\<rparr>]\<rparr>)"
proof (cases "\<not> systemAwake w")
  case True
  then show ?thesis by (simp add: syncAll_skip call_step_single)
next
  case awake: False
  show ?thesis
  proof (cases "\<not> t \<and> synchronised w")
    case True
    then show ?thesis using awake by (simp add: syncAll_skip call_step_single)
  next
    case pass: False
    show ?thesis
    proof (cases "synchronising w")
      case True
      then have "w\<lparr>synchronising := True\<rparr> = w" by (cases w) simp
      then show ?thesis using awake pass True by (simp add: syncAll_skip call_step_single)
    next
      case free: False
      have rs: "w\<lparr>synchronising := True, synchronised := False, threadsEngaged := 0,
                  targetTSC := 0\<rparr> = round_start w"
        by (simp add: round_start_def)
      show ?thesis
      proof (cases "mp_rendezvous_no_intrs sched (round_start w)")
        case None
        then show ?thesis using awake pass free
          by (simp add: syncAll_proceed call_step_single rs)
      next
        case (Some w')
        then show ?thesis using awake pass free
          by (simp add: syncAll_proceed call_step_single rs round_end_def)
      qed
    qed
  qed
qed

section \<open>Sleep and wake\<close>

lemma stopTimer_eq:
  "stopTimer w = w\<lparr>timer := map_option (\<lambda>t. t\<lparr>timeout := None, enabled := False\<rparr>) (timer w)\<rparr>"
  by (cases w) (simp add: stopTimer_def split: option.splits)




lemma after_sleep_eq:
  "after_sleep that w =
     w\<lparr>systemAwake := False, synchronised := False,
       timer := map_option (\<lambda>t. t\<lparr>timeout := None, enabled := False\<rparr>) (timer w),
       calls := calls w @ [TracePoint that kIOPMTracePointSleepCPUs]\<rparr>"
  by (simp add: after_sleep_def stopTimer_eq call_original_def)













end
